theory Spec2Isabelle
  imports Main "HOL-Library.Word" "HOL-Library.Sublist" "HOL-Library.Multiset"
begin

unbundle bit_operations_syntax

section \<open>Data model of \<^verbatim>\<open>src/huffman.js\<close>\<close>

text \<open>
  A \<^verbatim>\<open>Buffer\<close> is a list of bytes. Plain JavaScript numbers that never leave the
  non-negative range (\<^verbatim>\<open>this.bits\<close>, the elements of the \<^verbatim>\<open>payload\<close> array, bit counts)
  are \<open>nat\<close>; the two counters that start at \<open>-1\<close> are \<open>int\<close>.
\<close>

type_synonym byte = "8 word"

text \<open>
  The only \<^verbatim>\<open>throw\<close> of the source is \<^verbatim>\<open>throw "Ran out of data!"\<close> in \<^verbatim>\<open>readBit\<close>.
  \<open>TypeError\<close> is what the engine raises for \<^verbatim>\<open>undefined.split('')\<close> in \<^verbatim>\<open>writeCode\<close>
  when a code is looked up that the table does not hold.
\<close>

datatype error = OutOfData | TypeError

text \<open>
  A tree node is a JavaScript object. An object with a property \<^verbatim>\<open>l\<close> is an internal
  node (\<^verbatim>\<open>l\<close> and \<^verbatim>\<open>r\<close> are always set together); an object without it is a leaf
  with a \<^verbatim>\<open>value\<close> and an optional \<^verbatim>\<open>eob: true\<close>. The properties \<^verbatim>\<open>char\<close> and
  \<^verbatim>\<open>code\<close> are marked "for debugging" in the source and are never read; they are left out.
  The property \<^verbatim>\<open>count\<close> is read only while the tree is built (by the comparator of
  \<^verbatim>\<open>sort\<close> and by the merge), so the working list of \<^verbatim>\<open>generateTree\<close> carries it beside
  each node.
\<close>

datatype node = Leaf byte bool | Internal node node

type_synonym entry = "node \<times> nat"

text \<open>
  The fields of the \<^verbatim>\<open>Huffman\<close> object. \<^verbatim>\<open>eob = undefined\<close> is \<open>None\<close>. \<^verbatim>\<open>clear\<close> sets
  \<^verbatim>\<open>root\<close> to the empty object, which has neither \<^verbatim>\<open>l\<close> nor \<^verbatim>\<open>eob\<close>; both entry points
  assign \<^verbatim>\<open>root\<close> before anything reads it, so its \<^verbatim>\<open>value\<close> (undefined) is never
  observed and the model writes it as a plain leaf.
\<close>

record coder =
  eob :: "string option"
  table :: "byte \<rightharpoonup> string"
  root :: node
  treeBits :: nat
  dataBits :: nat
  bytesRemaining :: int
  bitsRemaining :: int
  bits :: nat

definition clear :: coder where
  "clear = \<lparr> eob = None, table = Map.empty, root = Leaf 0 False, treeBits = 0, dataBits = 0,
             bytesRemaining = -1, bitsRemaining = -1, bits = 0 \<rparr>"

section \<open>Bit helpers\<close>

definition readBitAvailable :: "byte list \<Rightarrow> coder \<Rightarrow> bool" where
  "readBitAvailable input st =
     (if bitsRemaining st > 0 then True
      else if bytesRemaining st = -1 then length input > 0
      else bytesRemaining st > 0)"

text \<open>
  \<^verbatim>\<open>readBit\<close> tests \<^verbatim>\<open>input.bytesRemaining == 0\<close>: the property is read from the buffer
  argument, not from \<^verbatim>\<open>this\<close>. A \<^verbatim>\<open>Buffer\<close> has no property of that name, so the read
  yields \<^verbatim>\<open>undefined\<close> (\<open>None\<close>), and \<^verbatim>\<open>undefined == 0\<close> is false.
\<close>

definition buffer_bytesRemaining :: "byte list \<Rightarrow> int option" where
  "buffer_bytesRemaining input = None"

text \<open>
  \<^verbatim>\<open>input[i]\<close>: the byte as a number, or \<^verbatim>\<open>undefined\<close> (\<open>None\<close>) out of range. The value
  is stored in \<^verbatim>\<open>this.bits\<close>, which is read only by \<^verbatim>\<open>>>\<close> and \<^verbatim>\<open><<=\<close>; both coerce
  \<^verbatim>\<open>undefined\<close> to 0 (\<open>toInt32\<close>).
\<close>

definition buffer_at :: "byte list \<Rightarrow> int \<Rightarrow> nat option" where
  "buffer_at input i = (if 0 \<le> i \<and> i < int (length input) then Some (unat (input ! nat i)) else None)"

definition toInt32 :: "nat option \<Rightarrow> nat" where
  "toInt32 v = (case v of None \<Rightarrow> 0 | Some n \<Rightarrow> n)"

text \<open>
  \<^verbatim>\<open>this.bits\<close> holds a byte shifted left at most 8 times between two reloads, so the
  32-bit wrap of \<^verbatim>\<open><<\<close> is never reached and \<open>push_bit\<close> on \<open>nat\<close> is exact.
\<close>

definition readBit :: "byte list \<Rightarrow> coder \<Rightarrow> error + (nat \<times> coder)" where
  "readBit input st =
     (if bitsRemaining st < 1 then
        (let st1 = (if bytesRemaining st < 0 then st\<lparr>bytesRemaining := int (length input)\<rparr> else st)
         in if buffer_bytesRemaining input = Some 0 then Inl OutOfData
            else
              (let st2 = st1\<lparr>bits := toInt32 (buffer_at input (int (length input) - bytesRemaining st1)),
                             bytesRemaining := bytesRemaining st1 - 1,
                             bitsRemaining := 8\<rparr>
               in Inr (drop_bit 7 (bits st2) AND 1,
                       st2\<lparr>bitsRemaining := bitsRemaining st2 - 1, bits := push_bit 1 (bits st2)\<rparr>)))
      else
        Inr (drop_bit 7 (bits st) AND 1,
             st\<lparr>bitsRemaining := bitsRemaining st - 1, bits := push_bit 1 (bits st)\<rparr>))"

text \<open>\<^verbatim>\<open>readUInt\<close>: the counter of the \<^verbatim>\<open>for\<close> loop is the number of rounds left.\<close>

fun readUIntLoop :: "byte list \<Rightarrow> nat \<Rightarrow> nat \<Rightarrow> coder \<Rightarrow> error + (nat \<times> coder)" where
  "readUIntLoop input 0 v st = Inr (v, st)"
| "readUIntLoop input (Suc k) v st =
     (case readBit input st of
        Inl e \<Rightarrow> Inl e
      | Inr (b, st1) \<Rightarrow> readUIntLoop input k (push_bit 1 v OR b) st1)"

definition readUInt :: "byte list \<Rightarrow> nat \<Rightarrow> coder \<Rightarrow> error + (nat \<times> coder)" where
  "readUInt input bitCount st = readUIntLoop input bitCount 0 st"

text \<open>
  The writer: the \<^verbatim>\<open>output\<close> array travels with the object's fields. A completed byte
  stays in \<^verbatim>\<open>this.bits\<close> (with \<^verbatim>\<open>bitsRemaining = 0\<close>) until the next \<^verbatim>\<open>writeBit\<close>
  pushes it.
\<close>

type_synonym writer = "nat list \<times> coder"

definition writeBit :: "writer \<Rightarrow> nat \<Rightarrow> writer" where
  "writeBit w v =
     (let (output, st) = w;
          (output1, st1) =
             (if bitsRemaining st < 1 then
                (if bitsRemaining st = 0 then output @ [bits st] else output,
                 st\<lparr>bits := 0, bitsRemaining := 8\<rparr>)
              else (output, st))
      in (output1, st1\<lparr>bits := push_bit 1 (bits st1) OR (v AND 1),
                        bitsRemaining := bitsRemaining st1 - 1\<rparr>))"

definition writeUInt :: "writer \<Rightarrow> nat \<Rightarrow> nat \<Rightarrow> writer" where
  "writeUInt w v bitCount =
     foldl (\<lambda>w1 i. writeBit w1 (drop_bit (bitCount - 1 - i) v AND 1)) w [0..<bitCount]"

definition writeCode :: "writer \<Rightarrow> string \<Rightarrow> writer" where
  "writeCode w code = foldl (\<lambda>w1 c. writeBit w1 (if c = CHR ''0'' then 0 else 1)) w code"

text \<open>
  \<^verbatim>\<open>writeFinish\<close> pushes the held bits only when \<^verbatim>\<open>bitsRemaining > 0\<close>, that is when the
  byte is incomplete (1 to 7 free places, so the shift count stays below 32 and \<open>push_bit\<close>
  is exact). With \<^verbatim>\<open>bitsRemaining == 0\<close> the byte is complete, not yet pushed, and stays so.
\<close>

definition writeFinish :: "writer \<Rightarrow> writer" where
  "writeFinish w =
     (let (output, st) = w
      in if bitsRemaining st > 0 then
           (output @ [push_bit (nat (bitsRemaining st)) (bits st)], st\<lparr>bits := 0, bitsRemaining := 0\<rparr>)
         else (output, st))"

section \<open>Tree and table generation\<close>

fun generateTableRecurse :: "node \<Rightarrow> string \<Rightarrow> coder \<Rightarrow> coder" where
  "generateTableRecurse (Internal l r) code st =
     generateTableRecurse r (code @ ''1'') (generateTableRecurse l (code @ ''0'') st)"
| "generateTableRecurse (Leaf v e) code st =
     (let code1 = (if code = [] then ''0'' else code)
      in if e then st\<lparr>eob := Some code1\<rparr> else st\<lparr>table := (table st)(v \<mapsto> code1)\<rparr>)"

definition generateTable :: "coder \<Rightarrow> coder" where
  "generateTable st = generateTableRecurse (root st) [] (st\<lparr>table := Map.empty\<rparr>)"

text \<open>
  \<^verbatim>\<open>occurrenceMap\<close> is a plain object whose keys are byte values. ECMAScript enumerates
  integer keys in ascending numeric order, whatever the order of insertion
  (OrdinaryOwnPropertyKeys), and \<^verbatim>\<open>Object.values\<close> follows that order. The model keeps
  the properties as an association list in enumeration order.
\<close>

type_synonym 'v jsobject = "(byte \<times> 'v) list"

definition obj_get :: "'v jsobject \<Rightarrow> byte \<Rightarrow> 'v option" where
  "obj_get obj k = map_of obj k"

fun obj_set :: "'v jsobject \<Rightarrow> byte \<Rightarrow> 'v \<Rightarrow> 'v jsobject" where
  "obj_set [] k v = [(k, v)]"
| "obj_set ((k1, v1) # ps) k v =
     (if k = k1 then (k, v) # ps
      else if k < k1 then (k, v) # (k1, v1) # ps
      else (k1, v1) # obj_set ps k v)"

definition obj_values :: "'v jsobject \<Rightarrow> 'v list" where
  "obj_values obj = map snd obj"

text \<open>One round of the counting loop: create the entry with count 0 if absent, then add 1.\<close>

definition countByte :: "entry jsobject \<Rightarrow> byte \<Rightarrow> entry jsobject" where
  "countByte occurrenceMap b =
     (let m1 = (if obj_get occurrenceMap b = None then obj_set occurrenceMap b (Leaf b False, 0)
                else occurrenceMap)
      in case obj_get m1 b of
           Some (n, c) \<Rightarrow> obj_set m1 b (n, c + 1)
         | None \<Rightarrow> m1)"

text \<open>The raw entries, with the End-Of-Block entry pushed last.\<close>

definition occurrences :: "byte list \<Rightarrow> entry list" where
  "occurrences data = obj_values (foldl countByte [] data) @ [(Leaf 0 True, 0)]"

text \<open>
  The body of the \<^verbatim>\<open>while\<close> loop. \<^verbatim>\<open>Array.prototype.sort\<close> with the comparator
  \<^verbatim>\<open>a.count - b.count\<close> is a stable ascending sort on \<^verbatim>\<open>count\<close> (ECMAScript 2019),
  which is \<open>sort_key\<close>. The two \<^verbatim>\<open>shift()\<close> calls take \<^verbatim>\<open>r\<close> first, then \<^verbatim>\<open>l\<close>. The loop
  runs the body only on lists of at least two entries; the last case is for shorter lists.
\<close>

definition mergeStep :: "entry list \<Rightarrow> entry list" where
  "mergeStep occs =
     (case sort_key snd occs of
        r # l # rest \<Rightarrow> rest @ [(Internal (fst l) (fst r), snd l + snd r)]
      | _ \<Rightarrow> occs)"

function mergeLoop :: "entry list \<Rightarrow> entry list" where
  "mergeLoop occs = (if 1 < length occs then mergeLoop (mergeStep occs) else occs)"
  by pat_completeness auto
termination
proof (relation "measure length")
  show "wf (measure (length :: entry list \<Rightarrow> nat))" by simp
next
  fix occs :: "entry list"
  assume h: "1 < length occs"
  have "length (sort_key snd occs) = length occs" by simp
  with h have "length (mergeStep occs) < length occs"
    by (cases "sort_key snd occs" rule: remdups_adj.cases) (auto simp: mergeStep_def)
  then show "(mergeStep occs, occs) \<in> measure length" by simp
qed

text \<open>
  \<^verbatim>\<open>this.root = occurrences.pop()\<close>: the last element of what the loop leaves. \<^verbatim>\<open>pop\<close>
  on an empty array would yield \<^verbatim>\<open>undefined\<close>; the list is never empty, since the
  End-Of-Block entry is always pushed.
\<close>

definition generateTree :: "byte list \<Rightarrow> coder \<Rightarrow> coder" where
  "generateTree data st =
     (case rev (mergeLoop (occurrences data)) of
        e # _ \<Rightarrow> st\<lparr>root := fst e\<rparr>
      | [] \<Rightarrow> st)"

section \<open>Tree serialization\<close>

text \<open>\<^verbatim>\<open>writeTreeRecurse\<close> returns the bit count; the writer it has advanced comes with it.\<close>

fun writeTreeRecurse :: "writer \<Rightarrow> node \<Rightarrow> writer \<times> nat" where
  "writeTreeRecurse w (Internal l r) =
     (let w1 = writeBit w 0;
          (w2, n1) = writeTreeRecurse w1 l;
          (w3, n2) = writeTreeRecurse w2 r
      in (w3, 0 + 1 + n1 + n2))"
| "writeTreeRecurse w (Leaf v e) =
     (let w1 = writeBit w 1;
          w2 = writeBit w1 (if e then 1 else 0);
          w3 = writeUInt w2 (unat v) 8
      in (w3, 0 + 1 + 1 + 8))"

definition writeTree :: "writer \<Rightarrow> writer" where
  "writeTree w =
     (let ((output1, st1), n) = writeTreeRecurse w (root (snd w))
      in (output1, st1\<lparr>treeBits := n\<rparr>))"

text \<open>
  \<^verbatim>\<open>readTreeRecurse\<close> recurses for as long as the stream says "parent node"; nothing in
  the source bounds it, so it is a partial function and \<open>None\<close> stands for a recursion
  that never returns. The value read by \<^verbatim>\<open>readUInt\<close> has 8 bits and is stored as a byte.
\<close>

partial_function (option) readTreeRecurse :: "byte list \<Rightarrow> coder \<Rightarrow> (error + (node \<times> coder)) option" where
  "readTreeRecurse input st =
     (case readBit input st of
        Inl e \<Rightarrow> Some (Inl e)
      | Inr (which, st1) \<Rightarrow>
          if which = 0 then
            Option.bind (readTreeRecurse input st1) (\<lambda>res1. case res1 of
                Inl e \<Rightarrow> Some (Inl e)
              | Inr (l, st2) \<Rightarrow>
                  Option.bind (readTreeRecurse input st2) (\<lambda>res2. case res2 of
                      Inl e \<Rightarrow> Some (Inl e)
                    | Inr (r, st3) \<Rightarrow> Some (Inr (Internal l r, st3))))
          else
            (case readBit input st1 of
               Inl e \<Rightarrow> Some (Inl e)
             | Inr (b, st2) \<Rightarrow>
                 (case readUInt input 8 st2 of
                    Inl e \<Rightarrow> Some (Inl e)
                  | Inr (v, st3) \<Rightarrow> Some (Inr (Leaf (of_nat v) (b = 1), st3)))))"

declare readTreeRecurse.simps [code]

definition readTree :: "byte list \<Rightarrow> coder \<Rightarrow> (error + coder) option" where
  "readTree input st =
     Option.bind (readTreeRecurse input st) (\<lambda>res. case res of
         Inl e \<Rightarrow> Some (Inl e)
       | Inr (n, st1) \<Rightarrow> Some (Inr (st1\<lparr>root := n\<rparr>)))"

section \<open>Encode\<close>

text \<open>\<^verbatim>\<open>Buffer.from(array)\<close> keeps the low 8 bits of every element.\<close>

definition Buffer_from :: "nat list \<Rightarrow> byte list" where
  "Buffer_from xs = map of_nat xs"

text \<open>
  The loop \<^verbatim>\<open>for(let byte of data) this.writeCode(payload, this.table[byte])\<close>; a byte
  without a table entry makes \<^verbatim>\<open>writeCode\<close> call \<^verbatim>\<open>split\<close> on \<^verbatim>\<open>undefined\<close>.
\<close>

fun writeData :: "writer \<Rightarrow> byte list \<Rightarrow> error + writer" where
  "writeData w [] = Inr w"
| "writeData w (b # bs) =
     (case table (snd w) b of
        None \<Rightarrow> Inl TypeError
      | Some code \<Rightarrow> writeData (writeCode w code) bs)"

text \<open>\<^verbatim>\<open>encode\<close> returns the payload; the object's fields after the call come with it.\<close>

definition encode :: "byte list \<Rightarrow> error + (byte list \<times> coder)" where
  "encode data =
     (let st1 = generateTree data clear;
          st2 = generateTable st1;
          w1 = writeTree ([], st2)
      in case writeData w1 data of
           Inl e \<Rightarrow> Inl e
         | Inr w2 \<Rightarrow>
             (case eob (snd w2) of
                None \<Rightarrow> Inl TypeError
              | Some code \<Rightarrow>
                  (let (payload, st3) = writeFinish (writeCode w2 code)
                   in Inr (Buffer_from payload, st3))))"

section \<open>Decode\<close>

text \<open>
  The \<^verbatim>\<open>while\<close> loop of \<^verbatim>\<open>decode\<close>. \<^verbatim>\<open>n.eob\<close> is truthy on an End-Of-Block leaf only;
  \<^verbatim>\<open>bit == '0'\<close> holds for the number 0. The loop ends by \<^verbatim>\<open>break\<close> or when
  \<^verbatim>\<open>readBitAvailable\<close> says no; either way \<^verbatim>\<open>decode\<close> returns the output so far.
\<close>

definition descend :: "node \<Rightarrow> nat \<Rightarrow> node" where
  "descend n b = (case n of Internal l r \<Rightarrow> (if b = 0 then l else r) | Leaf v e \<Rightarrow> n)"

definition readerMeasure :: "byte list \<Rightarrow> coder \<Rightarrow> nat" where
  "readerMeasure input st =
     (if bytesRemaining st < 0 then 8 * length input + 1 + nat (bitsRemaining st)
      else 8 * nat (bytesRemaining st) + nat (bitsRemaining st))"

function decodeLoop :: "byte list \<Rightarrow> node \<Rightarrow> byte list \<Rightarrow> coder \<Rightarrow> error + (byte list \<times> coder)" where
  "decodeLoop input n output st =
     (if readBitAvailable input st then
        (case readBit input st of
           Inl e \<Rightarrow> Inl e
         | Inr (b, st1) \<Rightarrow>
             (case descend n b of
                Leaf v e \<Rightarrow>
                  if e then Inr (output, st1)
                  else decodeLoop input (root st1) (output @ [v]) st1
              | Internal l r \<Rightarrow> decodeLoop input (Internal l r) output st1))
      else Inr (output, st))"
  by pat_completeness auto
termination
proof (relation "measure (\<lambda>(inp, nd, out, st). readerMeasure inp st)", goal_cases)
  case 1
  show ?case by simp
next
  case (2 inp nd out st x b st1 v e)
  then have "readerMeasure inp st1 < readerMeasure inp st"
    by (cases inp)
       (auto simp: readBitAvailable_def readBit_def readerMeasure_def buffer_bytesRemaining_def
             Let_def split: if_splits)
  then show ?case by simp
next
  case (3 inp nd out st x b st1 l r)
  then have "readerMeasure inp st1 < readerMeasure inp st"
    by (cases inp)
       (auto simp: readBitAvailable_def readBit_def readerMeasure_def buffer_bytesRemaining_def
             Let_def split: if_splits)
  then show ?case by simp
qed

definition decode :: "byte list \<Rightarrow> (error + (byte list \<times> coder)) option" where
  "decode payload =
     Option.bind (readTree payload clear) (\<lambda>res. case res of
         Inl e \<Rightarrow> Some (Inl e)
       | Inr st1 \<Rightarrow> Some (decodeLoop payload (root st1) [] st1))"

section \<open>Statements taken from the specification\<close>

text \<open>
  The specification's FrequencyAnalyzer: the pairs in first-occurrence order of the
  distinct byte values, then the End-Of-Block entry. This definition follows the
  specification's words, not the source; it is compared with \<open>occurrences\<close> below.
\<close>

definition spec_firstOccurrenceOrder :: "byte list \<Rightarrow> entry list" where
  "spec_firstOccurrenceOrder data =
     map (\<lambda>v. (Leaf v False, count_list data v)) (rev (remdups (rev data))) @ [(Leaf 0 True, 0)]"

section \<open>Notions used in the statements\<close>

text \<open>
  The code of every leaf of a tree, by the walk of \<^verbatim>\<open>generateTableRecurse\<close>: the path from
  the root (\<open>0\<close> left, \<open>1\<close> right), or \<open>''0''\<close> for a root that is a leaf. The key
  \<open>None\<close> is the End-Of-Block leaf. \<open>tableEntries\<close> collects what the object holds in
  \<^verbatim>\<open>table\<close> and \<^verbatim>\<open>eob\<close>.
\<close>

fun leafCodes :: "node \<Rightarrow> string \<Rightarrow> (byte option \<times> string) list" where
  "leafCodes (Internal l r) code = leafCodes l (code @ ''0'') @ leafCodes r (code @ ''1'')"
| "leafCodes (Leaf v e) code = [(if e then None else Some v, if code = [] then ''0'' else code)]"

definition tableEntries :: "coder \<Rightarrow> (byte option \<times> string) set" where
  "tableEntries st = {(Some v, c) | v c. table st v = Some c} \<union> {(None, c) | c. eob st = Some c}"

text \<open>
  Bit sequences. \<open>bitsOfNat k n\<close> lists the low \<open>k\<close> bits of \<open>n\<close>, most significant
  first (the bits \<^verbatim>\<open>writeUInt\<close> passes to \<^verbatim>\<open>writeBit\<close>); \<open>fromBits\<close> is the accumulation of
  \<^verbatim>\<open>readUInt\<close>; \<open>bufferBits\<close> is a buffer as the sequence of its bits; \<open>codeBits\<close> is a code
  string as the bits \<^verbatim>\<open>writeCode\<close> passes on; \<open>treeSerial\<close> is the grammar of the tree section
  (0, left, right for a parent; 1, EOB flag, 8-bit value for a leaf).
\<close>

definition bitsOfNat :: "nat \<Rightarrow> nat \<Rightarrow> nat list" where
  "bitsOfNat k n = map (\<lambda>i. drop_bit (k - 1 - i) n AND 1) [0..<k]"

definition fromBits :: "nat \<Rightarrow> nat list \<Rightarrow> nat" where
  "fromBits v bs = foldl (\<lambda>a b. push_bit 1 a OR b) v bs"

definition bufferBits :: "byte list \<Rightarrow> nat list" where
  "bufferBits input = concat (map (\<lambda>b. bitsOfNat 8 (unat b)) input)"

definition codeBits :: "string \<Rightarrow> nat list" where
  "codeBits code = map (\<lambda>c. if c = CHR ''0'' then 0 else 1) code"

fun treeSerial :: "node \<Rightarrow> nat list" where
  "treeSerial (Internal l r) = 0 # treeSerial l @ treeSerial r"
| "treeSerial (Leaf v e) = 1 # (if e then 1 else 0) # bitsOfNat 8 (unat v)"

text \<open>
  The view of the writer: \<open>written w\<close> is the sequence of bits given to \<^verbatim>\<open>writeBit\<close> so
  far, read back from the pushed bytes and from the bits still held in \<^verbatim>\<open>this.bits\<close>.
  \<open>wfWriter\<close> describes the states a writer goes through from \<^verbatim>\<open>clear\<close> on.
  \<open>codecFields\<close> are the fields that the bit helpers leave alone.
\<close>

definition writerPending :: "coder \<Rightarrow> nat list" where
  "writerPending st =
     (if bitsRemaining st < 0 then [] else bitsOfNat (8 - nat (bitsRemaining st)) (bits st))"

definition written :: "writer \<Rightarrow> nat list" where
  "written w = concat (map (bitsOfNat 8) (fst w)) @ writerPending (snd w)"

definition wfWriter :: "writer \<Rightarrow> bool" where
  "wfWriter w =
     ((bitsRemaining (snd w) = -1 \<and> fst w = []) \<or>
      (0 \<le> bitsRemaining (snd w) \<and> bitsRemaining (snd w) \<le> 7))"

definition codecFields :: "coder \<Rightarrow> string option \<times> (byte \<rightharpoonup> string) \<times> node \<times> nat \<times> nat" where
  "codecFields st = (eob st, table st, root st, treeBits st, dataBits st)"

text \<open>
  The view of the reader: \<open>remaining input st\<close> is the sequence of bits that \<^verbatim>\<open>readBit\<close>
  will deliver before \<^verbatim>\<open>readBitAvailable\<close> turns false. A \<^verbatim>\<open>readBit\<close> on an exhausted reader
  does not fail: it delivers 8 zero bits and then the buffer once more from its first
  byte (\<open>refill\<close>). \<open>takeBits input k bs\<close> are the next \<open>k\<close> bits so delivered, with
  what remains.
\<close>

definition readerPending :: "coder \<Rightarrow> nat list" where
  "readerPending st = map (\<lambda>i. drop_bit (7 - i) (bits st) AND 1) [0..<nat (bitsRemaining st)]"

definition remaining :: "byte list \<Rightarrow> coder \<Rightarrow> nat list" where
  "remaining input st =
     readerPending st @
     (if bytesRemaining st < 0 then bufferBits input
      else bufferBits (drop (length input - nat (bytesRemaining st)) input))"

definition wfReader :: "byte list \<Rightarrow> coder \<Rightarrow> bool" where
  "wfReader input st =
     (-1 \<le> bytesRemaining st \<and> bytesRemaining st \<le> int (length input) \<and> bitsRemaining st \<le> 8)"

definition refill :: "byte list \<Rightarrow> nat list \<Rightarrow> nat list" where
  "refill input bs = (if bs = [] then replicate 8 0 @ bufferBits input else bs)"

fun takeBits :: "byte list \<Rightarrow> nat \<Rightarrow> nat list \<Rightarrow> nat list \<times> nat list" where
  "takeBits input 0 bs = ([], bs)"
| "takeBits input (Suc k) bs =
     (let s = refill input bs; (xs, bs1) = takeBits input k (tl s) in (hd s # xs, bs1))"

text \<open>
  The walk of the decoding loop over a sequence of bits: the symbols put out, the bits
  left, and whether an End-Of-Block leaf ended the walk (otherwise the bits ran out).
\<close>

fun walk :: "node \<Rightarrow> node \<Rightarrow> byte list \<Rightarrow> nat list \<Rightarrow> byte list \<times> nat list \<times> bool" where
  "walk rt n out [] = (out, [], False)"
| "walk rt n out (b # bs) =
     (case descend n b of
        Leaf v e \<Rightarrow> if e then (out, bs, True) else walk rt rt (out @ [v]) bs
      | Internal l r \<Rightarrow> walk rt (Internal l r) out bs)"

text \<open>
  The leaves of a tree, left to right, and of a working list; the bits of the codes that
  \<^verbatim>\<open>encode\<close> looks up; \<open>encodedBits\<close> is every bit \<^verbatim>\<open>encode\<close> gives to \<^verbatim>\<open>writeBit\<close>, in
  order: the tree, the code of each input byte, the End-Of-Block code.
\<close>

fun leaves :: "node \<Rightarrow> (byte \<times> bool) list" where
  "leaves (Leaf v e) = [(v, e)]"
| "leaves (Internal l r) = leaves l @ leaves r"

definition leafBag :: "entry list \<Rightarrow> (byte \<times> bool) multiset" where
  "leafBag occs = (\<Sum>e\<in>#mset occs. mset (leaves (fst e)))"

definition symbolBits :: "coder \<Rightarrow> byte \<Rightarrow> nat list" where
  "symbolBits st b = (case table st b of None \<Rightarrow> [] | Some code \<Rightarrow> codeBits code)"

definition eobBits :: "coder \<Rightarrow> nat list" where
  "eobBits st = (case eob st of None \<Rightarrow> [] | Some code \<Rightarrow> codeBits code)"

definition encodedBits :: "byte list \<Rightarrow> nat list" where
  "encodedBits data =
     (let st = generateTable (generateTree data clear)
      in treeSerial (root st) @ concat (map (symbolBits st) data) @ eobBits st)"

text \<open>
  What the walk does once it has followed a code to its leaf: it goes on from the root
  with the leaf's value put out, or it ends at the End-Of-Block leaf (\<open>None\<close>).
\<close>

definition afterSymbol :: "node \<Rightarrow> byte list \<Rightarrow> nat list \<Rightarrow> byte option \<Rightarrow> byte list \<times> nat list \<times> bool" where
  "afterSymbol rt out bs k = (case k of Some v \<Rightarrow> walk rt rt (out @ [v]) bs | None \<Rightarrow> (out, bs, True))"

section \<open>The bit reader\<close>

declare mergeLoop.simps [simp del]
declare decodeLoop.simps [simp del]

lemma readBit_total: "\<exists>b st1. readBit input st = Inr (b, st1)"
  by (simp add: readBit_def buffer_bytesRemaining_def Let_def)

text \<open>
  C2. The claim: \<^verbatim>\<open>readBit\<close> fails with OutOfData when neither input bytes nor buffered
  bits remain. On the empty buffer and the fresh state of \<^verbatim>\<open>clear\<close> no bit is available
  (\<^verbatim>\<open>readBitAvailable\<close> is false), and \<^verbatim>\<open>readBit\<close> returns the bit 0 instead of failing: the
  guard reads \<^verbatim>\<open>bytesRemaining\<close> from the buffer, where it is undefined.
\<close>

theorem readBit_exhausted_returns_zero:
  "readBit [] clear = Inr (0, clear\<lparr>bytesRemaining := -1, bitsRemaining := 7, bits := 0\<rparr>)
   \<and> \<not> readBitAvailable [] clear"
  by (simp add: readBit_def readBitAvailable_def buffer_bytesRemaining_def buffer_at_def
      toInt32_def clear_def Let_def)

section \<open>Frequency analysis\<close>

lemma map_of_obj_set: "map_of (obj_set m k v) = (map_of m)(k \<mapsto> v)"
  by (induction m k v rule: obj_set.induct) (auto simp: fun_upd_twist)

lemma set_keys_obj_set: "set (map fst (obj_set m k v)) = insert k (set (map fst m))"
  by (induction m k v rule: obj_set.induct) auto

lemma sorted_obj_set:
  "sorted_wrt (<) (map fst m) \<Longrightarrow> sorted_wrt (<) (map fst (obj_set m k v))"
proof (induction m k v rule: obj_set.induct)
  case (1 k v)
  then show ?case by simp
next
  case (2 k1 v1 ps k v)
  show ?case
  proof (cases "k = k1")
    case True
    with 2 show ?thesis by simp
  next
    case False
    note neq = this
    show ?thesis
    proof (cases "k < k1")
      case True
      with 2 neq show ?thesis by auto
    next
      case False
      with neq have lt: "k1 < k" by simp
      have "\<forall>x\<in>set (map fst (obj_set ps k v)). k1 < x"
        using 2(2) lt by (auto simp: set_keys_obj_set simp del: set_map)
      with 2 neq False show ?thesis by simp
    qed
  qed
qed

lemma countByte_map_of:
  "map_of (countByte m b) =
     (map_of m)(b \<mapsto> (case map_of m b of None \<Rightarrow> (Leaf b False, 1) | Some (n, c) \<Rightarrow> (n, c + 1)))"
  by (auto simp: countByte_def obj_get_def map_of_obj_set Let_def split: option.splits)

lemma countByte_sorted:
  "sorted_wrt (<) (map fst m) \<Longrightarrow> sorted_wrt (<) (map fst (countByte m b))"
  by (auto simp: countByte_def obj_get_def Let_def sorted_obj_set split: option.splits)

lemma countLoop_inv:
  "sorted_wrt (<) (map fst (foldl countByte [] data)) \<and>
   map_of (foldl countByte [] data) =
     (\<lambda>k. if k \<in> set data then Some (Leaf k False, count_list data k) else None)"
proof (induction data rule: rev_induct)
  case Nil
  then show ?case by simp
next
  case (snoc x xs)
  then show ?case
    by (auto simp: countByte_map_of countByte_sorted fun_eq_iff)
qed

lemma assoc_list_by_keys:
  "distinct (map fst m) \<Longrightarrow> m = map (\<lambda>k. (k, the (map_of m k))) (map fst m)"
proof (induction m)
  case Nil
  then show ?case by simp
next
  case (Cons p ps)
  then have "map (\<lambda>k. (k, the (map_of (p # ps) k))) (map fst ps) = map (\<lambda>k. (k, the (map_of ps k))) (map fst ps)"
    by (intro map_cong) (auto simp: rev_image_eqI)
  with Cons show ?case by (cases p) auto
qed

lemma countLoop_keys: "map fst (foldl countByte [] data) = sorted_list_of_set (set data)"
proof -
  let ?m = "foldl countByte [] data"
  have s: "sorted_wrt (<) (map fst ?m)" using countLoop_inv by blast
  have "set (map fst ?m) = dom (map_of ?m)" by (simp add: dom_map_of_conv_image_fst)
  also have "\<dots> = set data" by (auto simp: countLoop_inv dom_def)
  finally have "set (map fst ?m) = set data" .
  with s show ?thesis
    by (metis sorted_list_of_set.idem_if_sorted_distinct strict_sorted_iff)
qed

lemma occurrences_eq:
  "occurrences data =
     map (\<lambda>v. (Leaf v False, count_list data v)) (sorted_list_of_set (set data)) @ [(Leaf 0 True, 0)]"
proof -
  let ?m = "foldl countByte [] data"
  have d: "distinct (map fst ?m)" by (simp add: countLoop_keys)
  have "map snd ?m = map snd (map (\<lambda>k. (k, the (map_of ?m k))) (map fst ?m))"
    using assoc_list_by_keys [OF d] by simp
  also have "\<dots> = map (\<lambda>k. the (map_of ?m k)) (sorted_list_of_set (set data))"
    by (simp add: countLoop_keys o_def)
  also have "\<dots> = map (\<lambda>v. (Leaf v False, count_list data v)) (sorted_list_of_set (set data))"
    by (intro map_cong) (auto simp: countLoop_inv)
  finally show ?thesis by (simp add: occurrences_def obj_values_def)
qed

text \<open>
  C4, as the code has it. The frequency analysis lists one pair for each distinct byte
  value of the buffer, with the number of its occurrences, in ascending order of the byte
  value (the enumeration order of the object's integer keys), and exactly one End-Of-Block
  entry of count 0 after them, as the last element.
\<close>

theorem occurrences_ascending_by_value:
  "occurrences data =
     map (\<lambda>v. (Leaf v False, count_list data v)) (sorted_list_of_set (set data)) @ [(Leaf 0 True, 0)]"
  by (rule occurrences_eq)

text \<open>
  C4 as stated (first-occurrence order) fails on the buffer 66, 65: the code lists 65
  before 66.
\<close>

theorem occurrences_first_occurrence_counterexample:
  "occurrences [66, 65] \<noteq> spec_firstOccurrenceOrder [66, 65]"
  by code_simp

section \<open>Tree construction\<close>

lemma sort_key_two:
  assumes "1 < length occs"
  shows "sort_key f occs = (sort_key f occs ! 0) # (sort_key f occs ! 1) # drop 2 (sort_key f occs)"
proof -
  have "length (sort_key f occs) = length occs" by simp
  with assms show ?thesis
    by (cases "sort_key f occs" rule: remdups_adj.cases) auto
qed

lemma mergeStep_two:
  assumes "1 < length occs"
  shows "mergeStep occs =
     drop 2 (sort_key snd occs) @
       [(Internal (fst (sort_key snd occs ! 1)) (fst (sort_key snd occs ! 0)),
         snd (sort_key snd occs ! 1) + snd (sort_key snd occs ! 0))]"
proof -
  obtain a b rest where s: "sort_key snd occs = a # b # rest"
    using sort_key_two [OF assms] by metis
  then show ?thesis by (simp add: mergeStep_def)
qed

lemma length_mergeStep: "1 < length occs \<Longrightarrow> length (mergeStep occs) = length occs - 1"
  by (simp add: mergeStep_two)

lemma mergeLoop_single: "occs \<noteq> [] \<Longrightarrow> length (mergeLoop occs) = 1"
proof (induction occs rule: mergeLoop.induct)
  case (1 occs)
  show ?case
  proof (cases "1 < length occs")
    case True
    then have "mergeStep occs \<noteq> []" using length_mergeStep [OF True] by auto
    with 1 True show ?thesis by (subst mergeLoop.simps) simp
  next
    case False
    with 1(2) have "length occs = 1" by (cases occs) auto
    with False show ?thesis by (subst mergeLoop.simps) simp
  qed
qed

lemma occurrences_nonempty: "occurrences data \<noteq> []"
  by (simp add: occurrences_def)

lemma generateTree_root:
  "\<exists>e. mergeLoop (occurrences data) = [e] \<and> generateTree data st = st\<lparr>root := fst e\<rparr>"
proof -
  have "length (mergeLoop (occurrences data)) = 1"
    by (rule mergeLoop_single [OF occurrences_nonempty])
  then obtain e where "mergeLoop (occurrences data) = [e]"
    by (cases "mergeLoop (occurrences data)") auto
  then show ?thesis by (simp add: generateTree_def)
qed

lemma mergeStep_facts:
  assumes "1 < length occs"
  shows "mergeLoop occs = mergeLoop (mergeStep occs)"
    and "mergeStep occs =
           drop 2 (sort_key snd occs) @
             [(Internal (fst (sort_key snd occs ! 1)) (fst (sort_key snd occs ! 0)),
               snd (sort_key snd occs ! 1) + snd (sort_key snd occs ! 0))]"
    and "sorted (map snd (sort_key snd occs))"
    and "mset (sort_key snd occs) = mset occs"
    and "filter (\<lambda>e. snd e = k) (sort_key snd occs) = filter (\<lambda>e. snd e = k) occs"
    and "snd (sort_key snd occs ! 0) \<le> snd (sort_key snd occs ! 1)"
    and "\<forall>e \<in> set (drop 2 (sort_key snd occs)). snd (sort_key snd occs ! 1) \<le> snd e"
    and "\<exists>e. mergeLoop (occurrences data) = [e] \<and> root (generateTree data st) = fst e"
proof -
  let ?s = "sort_key snd occs"
  show "mergeLoop occs = mergeLoop (mergeStep occs)"
    using assms by (subst mergeLoop.simps) simp
  show "mergeStep occs = drop 2 ?s @ [(Internal (fst (?s ! 1)) (fst (?s ! 0)), snd (?s ! 1) + snd (?s ! 0))]"
    by (rule mergeStep_two [OF assms])
  show "sorted (map snd ?s)" by simp
  show "mset ?s = mset occs" by simp
  show "filter (\<lambda>e. snd e = k) ?s = filter (\<lambda>e. snd e = k) occs"
    by (rule sort_key_stable)
  have s: "?s = (?s ! 0) # (?s ! 1) # drop 2 ?s" by (rule sort_key_two [OF assms])
  have "sorted (map snd ((?s ! 0) # (?s ! 1) # drop 2 ?s))" using s by simp
  then show "snd (?s ! 0) \<le> snd (?s ! 1)"
    and "\<forall>e \<in> set (drop 2 ?s). snd (?s ! 1) \<le> snd e"
    by (auto simp del: sorted_sort_key)
  show "\<exists>e. mergeLoop (occurrences data) = [e] \<and> root (generateTree data st) = fst e"
    using generateTree_root [of data st] by auto
qed

lemma mergeLoop_exit: "length fin \<le> 1 \<Longrightarrow> mergeLoop fin = fin"
  by (subst mergeLoop.simps) simp

text \<open>
  C7. While more than one entry remains, the loop runs its body once more. The body
  sorts the working list ascending by weight, stably (the entries of any one weight keep
  their order; the sorted list is a permutation of the working list), removes the first
  two entries of the sorted list, which are the two of lowest weight (min first, then
  second), and appends an internal node with left = second, right = min and the sum of
  their weights. On a list of at most one entry the loop runs no more and leaves the list
  as it is. From the entries of any input buffer the loop leaves exactly one entry, and
  the node of that entry is the root.
\<close>

theorem mergeStep_merges_two_lowest:
  assumes "1 < length occs"
  shows "mergeLoop occs = mergeLoop (mergeStep occs)
    \<and> mergeStep occs =
           drop 2 (sort_key snd occs) @
             [(Internal (fst (sort_key snd occs ! 1)) (fst (sort_key snd occs ! 0)),
               snd (sort_key snd occs ! 1) + snd (sort_key snd occs ! 0))]
    \<and> sorted (map snd (sort_key snd occs))
    \<and> mset (sort_key snd occs) = mset occs
    \<and> filter (\<lambda>e. snd e = k) (sort_key snd occs) = filter (\<lambda>e. snd e = k) occs
    \<and> snd (sort_key snd occs ! 0) \<le> snd (sort_key snd occs ! 1)
    \<and> (\<forall>e \<in> set (drop 2 (sort_key snd occs)). snd (sort_key snd occs ! 1) \<le> snd e)
    \<and> (length fin \<le> 1 \<longrightarrow> mergeLoop fin = fin)
    \<and> mergeLoop [e0] = [e0]
    \<and> (\<exists>e. mergeLoop (occurrences data) = [e] \<and> root (generateTree data st) = fst e)"
  using mergeStep_facts [OF assms] mergeLoop_exit [of fin] mergeLoop_exit [of "[e0]"] by simp

text \<open>
  One round on the entries of the buffer 65, 65, 66, the exit of the loop on the single
  entry that the rounds leave, and the root that \<^verbatim>\<open>generateTree\<close> stores for that buffer.
\<close>

lemma root_65_65_66:
  "root (generateTree [65, 65, 66] clear) = Internal (Leaf 65 False) (Internal (Leaf 66 False) (Leaf 0 True))"
  by code_simp

theorem mergeStep_merges_two_lowest_witness:
  "1 < length [(Leaf 65 False, 2), (Leaf 66 False, 1), (Leaf 0 True, 0::nat)]
   \<and> mergeStep [(Leaf 65 False, 2), (Leaf 66 False, 1), (Leaf 0 True, 0)] =
       [(Leaf 65 False, 2), (Internal (Leaf 66 False) (Leaf 0 True), 1)]
   \<and> length [(Internal (Leaf 65 False) (Internal (Leaf 66 False) (Leaf 0 True)), 3::nat)] \<le> 1
   \<and> mergeLoop [(Internal (Leaf 65 False) (Internal (Leaf 66 False) (Leaf 0 True)), 3)] =
       [(Internal (Leaf 65 False) (Internal (Leaf 66 False) (Leaf 0 True)), 3)]
   \<and> (\<exists>e. mergeLoop (occurrences [65, 65, 66]) = [e]
         \<and> fst e = Internal (Leaf 65 False) (Internal (Leaf 66 False) (Leaf 0 True)))"
  using mergeStep_merges_two_lowest
    [where occs = "[(Leaf 65 False, 2), (Leaf 66 False, 1), (Leaf 0 True, 0)]"
       and fin = "[(Internal (Leaf 65 False) (Internal (Leaf 66 False) (Leaf 0 True)), 3)]"
       and data = "[65, 65, 66]" and st = clear]
    root_65_65_66
  by (simp add: insort_key.simps)

section \<open>Code table\<close>

lemma tableEntries_recurse:
  "tableEntries (generateTableRecurse n code st) \<subseteq> tableEntries st \<union> set (leafCodes n code)"
proof (induction n arbitrary: code st)
  case (Leaf v e)
  show ?case by (auto simp: tableEntries_def Let_def split: if_splits)
next
  case (Internal l r)
  have "tableEntries (generateTableRecurse r (code @ ''1'') (generateTableRecurse l (code @ ''0'') st))
        \<subseteq> tableEntries (generateTableRecurse l (code @ ''0'') st) \<union> set (leafCodes r (code @ ''1''))"
    by (rule Internal.IH(2))
  also have "\<dots> \<subseteq> (tableEntries st \<union> set (leafCodes l (code @ ''0''))) \<union> set (leafCodes r (code @ ''1''))"
    using Internal.IH(1) [of "code @ ''0''" st] by blast
  finally show ?case by auto
qed

lemma leafCodes_prefix:
  "code \<noteq> [] \<Longrightarrow> e \<in> set (leafCodes n code) \<Longrightarrow> prefix code (snd e)"
proof (induction n arbitrary: code)
  case (Leaf v b)
  then show ?case by simp
next
  case (Internal l r)
  from Internal.prems(2) consider "e \<in> set (leafCodes l (code @ ''0''))" | "e \<in> set (leafCodes r (code @ ''1''))"
    by auto
  then show ?case
  proof cases
    case 1
    then have "prefix (code @ ''0'') (snd e)" by (intro Internal.IH(1)) simp_all
    then show ?thesis using append_prefixD by blast
  next
    case 2
    then have "prefix (code @ ''1'') (snd e)" by (intro Internal.IH(2)) simp_all
    then show ?thesis using append_prefixD by blast
  qed
qed

lemma branches_apart:
  assumes "prefix (code @ ''0'') c1" and "prefix (code @ ''1'') c2"
  shows "\<not> prefix c1 c2" and "\<not> prefix c2 c1"
proof -
  obtain s1 where c1: "c1 = code @ ''0'' @ s1" using assms(1) by (auto simp: prefix_def)
  obtain s2 where c2: "c2 = code @ ''1'' @ s2" using assms(2) by (auto simp: prefix_def)
  show "\<not> prefix c1 c2" by (simp add: c1 c2)
  show "\<not> prefix c2 c1" by (simp add: c1 c2)
qed

lemma leafCodes_prefix_free:
  "e1 \<in> set (leafCodes n code) \<Longrightarrow> e2 \<in> set (leafCodes n code) \<Longrightarrow> prefix (snd e1) (snd e2) \<Longrightarrow> e1 = e2"
proof (induction n arbitrary: code)
  case (Leaf v b)
  then show ?case by simp
next
  case (Internal l r)
  have in_l: "\<And>e. e \<in> set (leafCodes l (code @ ''0'')) \<Longrightarrow> prefix (code @ ''0'') (snd e)"
    by (rule leafCodes_prefix) simp_all
  have in_r: "\<And>e. e \<in> set (leafCodes r (code @ ''1'')) \<Longrightarrow> prefix (code @ ''1'') (snd e)"
    by (rule leafCodes_prefix) simp_all
  from Internal.prems(1) consider (l1) "e1 \<in> set (leafCodes l (code @ ''0''))" | (r1) "e1 \<in> set (leafCodes r (code @ ''1''))"
    by auto
  then show ?case
  proof cases
    case l1
    from Internal.prems(2) consider (l2) "e2 \<in> set (leafCodes l (code @ ''0''))" | (r2) "e2 \<in> set (leafCodes r (code @ ''1''))"
      by auto
    then show ?thesis
    proof cases
      case l2
      show ?thesis by (rule Internal.IH(1) [OF l1 l2 Internal.prems(3)])
    next
      case r2
      with l1 Internal.prems(3) show ?thesis using branches_apart(1) in_l in_r by blast
    qed
  next
    case r1
    from Internal.prems(2) consider (l2) "e2 \<in> set (leafCodes l (code @ ''0''))" | (r2) "e2 \<in> set (leafCodes r (code @ ''1''))"
      by auto
    then show ?thesis
    proof cases
      case l2
      with r1 Internal.prems(3) show ?thesis using branches_apart(2) in_l in_r by blast
    next
      case r2
      show ?thesis by (rule Internal.IH(2) [OF r1 r2 Internal.prems(3)])
    qed
  qed
qed

lemma generateTable_entries:
  "tableEntries (generateTable (st\<lparr>eob := None\<rparr>)) \<subseteq> set (leafCodes (root st) [])"
proof -
  have "tableEntries (st\<lparr>eob := None, table := Map.empty\<rparr>) = {}"
    by (simp add: tableEntries_def)
  then show ?thesis
    using tableEntries_recurse [of "root st" "[]" "st\<lparr>eob := None, table := Map.empty\<rparr>"]
    by (simp add: generateTable_def)
qed

lemma generateTree_fields: "generateTree data st = st\<lparr>root := root (generateTree data st)\<rparr>"
  by (simp add: generateTree_def split: list.splits)

lemma encode_table_entries:
  "tableEntries (generateTable (generateTree data clear))
     \<subseteq> set (leafCodes (root (generateTree data clear)) [])"
proof -
  have "generateTree data clear = (generateTree data clear)\<lparr>eob := None\<rparr>"
    by (subst (1 2) generateTree_fields) (simp add: clear_def)
  then show ?thesis using generateTable_entries [of "generateTree data clear"] by simp
qed

text \<open>
  C8. In the table that \<^verbatim>\<open>generateTable\<close> derives from the tree of \<^verbatim>\<open>generateTree\<close>, for
  every input buffer, the codes of two different byte values are not prefixes of one
  another, and the End-Of-Block code and the code of a byte value are not prefixes of
  one another either.
\<close>

theorem code_table_prefix_free:
  "(table (generateTable (generateTree data clear)) a = Some ca \<and>
    table (generateTable (generateTree data clear)) b = Some cb \<and> a \<noteq> b
      \<longrightarrow> \<not> prefix ca cb) \<and>
   (table (generateTable (generateTree data clear)) a = Some ca \<and>
    eob (generateTable (generateTree data clear)) = Some ce
      \<longrightarrow> \<not> prefix ca ce \<and> \<not> prefix ce ca)"
proof -
  let ?st = "generateTable (generateTree data clear)"
  let ?L = "set (leafCodes (root (generateTree data clear)) [])"
  have sub: "tableEntries ?st \<subseteq> ?L" by (rule encode_table_entries)
  have pf: "\<And>e1 e2. e1 \<in> ?L \<Longrightarrow> e2 \<in> ?L \<Longrightarrow> prefix (snd e1) (snd e2) \<Longrightarrow> e1 = e2"
    by (rule leafCodes_prefix_free)
  have t: "\<And>v c. table ?st v = Some c \<Longrightarrow> (Some v, c) \<in> ?L"
    using sub by (auto simp: tableEntries_def)
  have e: "\<And>c. eob ?st = Some c \<Longrightarrow> (None, c) \<in> ?L"
    using sub by (auto simp: tableEntries_def)
  show ?thesis
  proof (intro conjI impI)
    assume h: "table ?st a = Some ca \<and> table ?st b = Some cb \<and> a \<noteq> b"
    show "\<not> prefix ca cb"
    proof
      assume "prefix ca cb"
      then have "(Some a, ca) = (Some b, cb)" using pf [OF t t, of a ca b cb] h by simp
      with h show False by simp
    qed
  next
    assume h: "table ?st a = Some ca \<and> eob ?st = Some ce"
    show "\<not> prefix ca ce"
    proof
      assume "prefix ca ce"
      then have "(Some a, ca) = (None, ce)" using pf [OF t e, of a ca ce] h by simp
      then show False by simp
    qed
    show "\<not> prefix ce ca"
    proof
      assume "prefix ce ca"
      then have "(None, ce) = (Some a, ca)" using pf [OF e t, of ce a ca] h by simp
      then show False by simp
    qed
  qed
qed

lemma table_65_66:
  "table (generateTable (generateTree [65, 66] clear)) 65 = Some ''00'' \<and>
   table (generateTable (generateTree [65, 66] clear)) 66 = Some ''1'' \<and>
   eob (generateTable (generateTree [65, 66] clear)) = Some ''01''"
  by code_simp

theorem code_table_prefix_free_witness:
  "table (generateTable (generateTree [65, 66] clear)) 65 = Some ''00'' \<and>
   table (generateTable (generateTree [65, 66] clear)) 66 = Some ''1'' \<and>
   eob (generateTable (generateTree [65, 66] clear)) = Some ''01'' \<and>
   (65 :: byte) \<noteq> 66 \<and> \<not> prefix ''00'' ''1'' \<and> \<not> prefix ''00'' ''01'' \<and> \<not> prefix ''01'' ''00''"
  using code_table_prefix_free [of "[65, 66]" 65 "''00''" 66 "''1''" "''01''"] table_65_66
  by simp

section \<open>The bit writer, bit by bit\<close>

lemma bit_and_one: "(n :: nat) AND 1 = n mod 2"
  by (simp add: and_one_eq mod_2_eq_odd)

lemma double_or_bit: "b < 2 \<Longrightarrow> (n :: nat) * 2 OR b = 2 * n + b"
proof -
  assume "b < 2"
  then consider "b = 0" | "b = 1" by atomize_elim auto
  then show ?thesis
  proof cases
    case 1
    then show ?thesis by simp
  next
    case 2
    have "2 * n OR 1 = 2 * n + of_bool (even (2 * n))" by (rule or_one_eq)
    then show ?thesis by (simp add: 2 mult.commute)
  qed
qed

lemma shift_or_bit: "push_bit 1 (n :: nat) OR (v AND 1) = 2 * n + v mod 2"
  using double_or_bit [of "v mod 2" n] by (simp add: bit_and_one)

lemma shift_or_bit2: "(n :: nat) * 2 OR v mod 2 = 2 * n + v mod 2"
  using double_or_bit [of "v mod 2" n] by simp

lemma bitsOfNat_0 [simp]: "bitsOfNat 0 n = []"
  by (simp add: bitsOfNat_def)

lemma length_bitsOfNat [simp]: "length (bitsOfNat k n) = k"
  by (simp add: bitsOfNat_def)

lemma bitsOfNat_snoc: "b < 2 \<Longrightarrow> bitsOfNat (Suc k) (2 * n + b) = bitsOfNat k n @ [b]"
proof -
  assume b: "b < 2"
  have "\<And>i. i < k \<Longrightarrow> drop_bit (k - i) (2 * n + b) = drop_bit (k - 1 - i) n"
  proof -
    fix i assume "i < k"
    then obtain j where j: "k - i = Suc j" "k - Suc i = j" by (cases "k - i") auto
    show "drop_bit (k - i) (2 * n + b) = drop_bit (k - 1 - i) n"
      using b by (simp add: j drop_bit_Suc)
  qed
  then have "map (\<lambda>i. drop_bit (k - i) (2 * n + b) AND 1) [0..<k] = map (\<lambda>i. drop_bit (k - 1 - i) n AND 1) [0..<k]"
    by (intro map_cong) auto
  then show ?thesis using b by (simp add: bitsOfNat_def bit_and_one)
qed

lemma writeBit_written:
  assumes "wfWriter w"
  shows "written (writeBit w v) = written w @ [v mod 2]"
    and "wfWriter (writeBit w v)"
    and "codecFields (snd (writeBit w v)) = codecFields (snd w)"
proof -
  obtain out st where w: "w = (out, st)" by (cases w)
  consider (fresh) "bitsRemaining st = -1" | (full) "bitsRemaining st = 0"
    | (part) "1 \<le> bitsRemaining st" "bitsRemaining st \<le> 7"
    using assms by atomize_elim (auto simp: wfWriter_def w)
  then have "written (writeBit w v) = written w @ [v mod 2] \<and> wfWriter (writeBit w v)
    \<and> codecFields (snd (writeBit w v)) = codecFields (snd w)"
  proof cases
    case fresh
    then show ?thesis
      using bitsOfNat_snoc [of "v mod 2" 0 0]
      by (simp add: w writeBit_def written_def writerPending_def wfWriter_def codecFields_def shift_or_bit shift_or_bit2)
  next
    case full
    then show ?thesis
      using bitsOfNat_snoc [of "v mod 2" 0 0]
      by (simp add: w writeBit_def written_def writerPending_def wfWriter_def codecFields_def shift_or_bit shift_or_bit2)
  next
    case part
    then obtain j where j: "8 - nat (bitsRemaining st) = j" "8 - nat (bitsRemaining st - 1) = Suc j"
      by (cases "8 - nat (bitsRemaining st - 1)") auto
    from part show ?thesis
      using bitsOfNat_snoc [of "v mod 2" j "bits st"]
      by (simp add: w writeBit_def written_def writerPending_def wfWriter_def codecFields_def shift_or_bit shift_or_bit2 j)
  qed
  then show "written (writeBit w v) = written w @ [v mod 2]"
    and "wfWriter (writeBit w v)"
    and "codecFields (snd (writeBit w v)) = codecFields (snd w)" by blast+
qed

lemma writeBits_written:
  assumes "wfWriter w"
  shows "written (foldl (\<lambda>w1 x. writeBit w1 (f x)) w xs) = written w @ map (\<lambda>x. f x mod 2) xs
    \<and> wfWriter (foldl (\<lambda>w1 x. writeBit w1 (f x)) w xs)
    \<and> codecFields (snd (foldl (\<lambda>w1 x. writeBit w1 (f x)) w xs)) = codecFields (snd w)"
  using assms
proof (induction xs arbitrary: w)
  case Nil
  then show ?case by simp
next
  case (Cons x xs)
  show ?case
    using Cons.IH [OF writeBit_written(2) [OF Cons.prems, of "f x"]]
      writeBit_written(1,3) [OF Cons.prems, of "f x"]
    by simp
qed

lemma writeUInt_written:
  assumes "wfWriter w"
  shows "written (writeUInt w v k) = written w @ bitsOfNat k v"
    and "wfWriter (writeUInt w v k)"
    and "codecFields (snd (writeUInt w v k)) = codecFields (snd w)"
  using writeBits_written [OF assms, of "\<lambda>i. drop_bit (k - 1 - i) v AND 1" "[0..<k]"]
  by (simp_all add: writeUInt_def bitsOfNat_def bit_and_one)

lemma writeCode_written:
  assumes "wfWriter w"
  shows "written (writeCode w code) = written w @ codeBits code"
    and "wfWriter (writeCode w code)"
    and "codecFields (snd (writeCode w code)) = codecFields (snd w)"
  using writeBits_written [OF assms, of "\<lambda>c. if c = CHR ''0'' then 0 else 1" code]
  by (simp_all add: writeCode_def codeBits_def cong: map_cong)

lemma writeTreeRecurse_written:
  assumes "wfWriter w"
  shows "written (fst (writeTreeRecurse w t)) = written w @ treeSerial t
    \<and> wfWriter (fst (writeTreeRecurse w t))
    \<and> codecFields (snd (fst (writeTreeRecurse w t))) = codecFields (snd w)
    \<and> snd (writeTreeRecurse w t) = length (treeSerial t)"
  using assms
proof (induction t arbitrary: w)
  case (Leaf v e)
  note w1 = writeBit_written [OF Leaf.prems, of 1]
  note w2 = writeBit_written [OF w1(2), of "if e then 1 else 0"]
  note w3 = writeUInt_written [OF w2(2), of "unat v" 8]
  show ?case using w1 w2 w3 by (simp add: Let_def)
next
  case (Internal l r)
  note w1 = writeBit_written [OF Internal.prems, of 0]
  note l = Internal.IH(1) [OF w1(2)]
  note r = Internal.IH(2) [of "fst (writeTreeRecurse (writeBit w 0) l)"]
  show ?case using w1 l r by (simp add: Let_def split_beta)
qed

section \<open>The bit reader, bit by bit\<close>

lemma pending_step:
  assumes "m \<le> 7"
  shows "map (\<lambda>i. drop_bit (7 - i) (b :: nat) AND 1) [0..<Suc m] =
         (drop_bit 7 b AND 1) # map (\<lambda>i. drop_bit (7 - i) (push_bit 1 b) AND 1) [0..<m]"
proof -
  have "\<And>i. i < m \<Longrightarrow> drop_bit (7 - Suc i) b = drop_bit (7 - i) (push_bit 1 b)"
  proof -
    fix i assume "i < m"
    with assms obtain j where j: "7 - i = Suc j" "6 - i = j" by (cases "7 - i") auto
    show "drop_bit (7 - Suc i) b = drop_bit (7 - i) (push_bit 1 b)"
      by (simp add: j drop_bit_Suc)
  qed
  then have "map (\<lambda>i. drop_bit (7 - Suc i) b AND 1) [0..<m] = map (\<lambda>i. drop_bit (7 - i) (push_bit 1 b) AND 1) [0..<m]"
    by (intro map_cong) auto
  moreover have "map (\<lambda>i. drop_bit (7 - i) b AND 1) [0..<Suc m] =
      (drop_bit 7 b AND 1) # map (\<lambda>i. drop_bit (7 - Suc i) b AND 1) [0..<m]"
    by (simp add: upt_conv_Cons map_Suc_upt [symmetric] del: upt_Suc)
  ultimately show ?thesis by simp
qed

lemma pending_zero: "map (\<lambda>i. drop_bit (7 - i) (0::nat) AND 1) [0..<m] = replicate m 0"
  by (simp add: map_replicate_const)

lemma bitsOfNat_8: "bitsOfNat 8 b = map (\<lambda>i. drop_bit (7 - i) b AND 1) [0..<Suc 7]"
  by (simp add: bitsOfNat_def)

lemma readBit_stream:
  assumes "wfReader input st"
  shows "\<exists>st1. readBit input st = Inr (hd (refill input (remaining input st)), st1)
           \<and> remaining input st1 = tl (refill input (remaining input st))
           \<and> wfReader input st1 \<and> codecFields st1 = codecFields st"
proof (cases "1 \<le> bitsRemaining st")
  case True
  then obtain m where m: "nat (bitsRemaining st) = Suc m" "nat (bitsRemaining st - 1) = m"
    by (cases "nat (bitsRemaining st)") auto
  have m7: "m \<le> 7" using assms m by (auto simp: wfReader_def)
  show ?thesis
    using True assms pending_step [OF m7, of "bits st"]
    by (simp add: readBit_def remaining_def readerPending_def refill_def wfReader_def codecFields_def m)
next
  case False
  note nobits = this
  show ?thesis
  proof (cases "bytesRemaining st < 0")
    case True
    show ?thesis
    proof (cases input)
      case Nil
      with nobits True assms show ?thesis
        by (simp add: readBit_def remaining_def readerPending_def refill_def wfReader_def
            codecFields_def buffer_bytesRemaining_def buffer_at_def toInt32_def bufferBits_def
            pending_zero numeral_eq_Suc)
    next
      case (Cons x xs)
      with nobits True assms show ?thesis
        using pending_step [of 7 "unat x"]
        by (simp add: readBit_def remaining_def readerPending_def refill_def wfReader_def
            codecFields_def buffer_bytesRemaining_def buffer_at_def toInt32_def bufferBits_def
            bitsOfNat_8 del: upt_Suc)
    qed
  next
    case False
    note nonneg = this
    show ?thesis
    proof (cases "bytesRemaining st = 0")
      case True
      with nobits assms show ?thesis
        by (simp add: readBit_def remaining_def readerPending_def refill_def wfReader_def
            codecFields_def buffer_bytesRemaining_def buffer_at_def toInt32_def bufferBits_def
            pending_zero numeral_eq_Suc)
    next
      case False
      define p where "p = length input - nat (bytesRemaining st)"
      have p: "p < length input" "int (length input) - bytesRemaining st = int p"
        "length input - nat (bytesRemaining st - 1) = Suc p"
        using False nonneg assms by (auto simp: p_def wfReader_def)
      have d: "drop p input = input ! p # drop (Suc p) input"
        using p(1) by (simp add: Cons_nth_drop_Suc)
      from nobits nonneg False assms show ?thesis
        using pending_step [of 7 "unat (input ! p)"] p d
        by (simp add: readBit_def remaining_def readerPending_def refill_def wfReader_def
            codecFields_def buffer_bytesRemaining_def buffer_at_def toInt32_def bufferBits_def
            bitsOfNat_8 p_def [symmetric] del: upt_Suc)
    qed
  qed
qed

lemma length_bufferBits [simp]: "length (bufferBits input) = 8 * length input"
  by (induction input) (simp_all add: bufferBits_def)

lemma length_remaining:
  "wfReader input st \<Longrightarrow>
   length (remaining input st) =
     nat (bitsRemaining st) + 8 * (if bytesRemaining st < 0 then length input else nat (bytesRemaining st))"
  by (auto simp: remaining_def readerPending_def wfReader_def)

lemma readBitAvailable_remaining:
  assumes "wfReader input st"
  shows "readBitAvailable input st \<longleftrightarrow> remaining input st \<noteq> []"
proof -
  have "remaining input st \<noteq> [] \<longleftrightarrow> 0 < length (remaining input st)" by simp
  also have "\<dots> \<longleftrightarrow> readBitAvailable input st"
    using assms by (auto simp: length_remaining readBitAvailable_def wfReader_def)
  finally show ?thesis by simp
qed

section \<open>Reading the tree and decoding, on bit sequences\<close>

lemma fromBits_simps [simp]:
  "fromBits v [] = v" "fromBits v (b # bs) = fromBits (push_bit 1 v OR b) bs"
  by (simp_all add: fromBits_def)

lemma length_takeBits [simp]: "length (fst (takeBits input k bs)) = k"
  by (induction k arbitrary: bs) (simp_all add: Let_def split_beta)

lemma takeBits_add:
  "takeBits input (m + n) bs =
     (fst (takeBits input m bs) @ fst (takeBits input n (snd (takeBits input m bs))),
      snd (takeBits input n (snd (takeBits input m bs))))"
  by (induction m arbitrary: bs) (simp_all add: Let_def split_beta)

lemma takeBits_prefix: "takeBits input (length xs) (xs @ rest) = (xs, rest)"
  by (induction xs) (simp_all add: Let_def refill_def)

lemma bitsOfNat_lt2: "b \<in> set (bitsOfNat k n) \<Longrightarrow> b < 2"
  by (auto simp: bitsOfNat_def bit_and_one)

lemma bitsOfNat_Suc: "bitsOfNat (Suc k) n = bitsOfNat k (n div 2) @ [n mod 2]"
  using bitsOfNat_snoc [of "n mod 2" k "n div 2"] by simp

lemma fromBits_snoc: "fromBits v (bs @ [b]) = push_bit 1 (fromBits v bs) OR b"
  by (simp add: fromBits_def)

lemma fromBits_bitsOfNat: "fromBits v (bitsOfNat k n) = v * 2 ^ k + n mod 2 ^ k"
proof (induction k arbitrary: n)
  case 0
  then show ?case by simp
next
  case (Suc k)
  have "fromBits v (bitsOfNat (Suc k) n) = push_bit 1 (v * 2 ^ k + n div 2 mod 2 ^ k) OR n mod 2"
    by (simp only: bitsOfNat_Suc fromBits_snoc Suc.IH)
  also have "\<dots> = 2 * (v * 2 ^ k + n div 2 mod 2 ^ k) + n mod 2"
    using double_or_bit [of "n mod 2" "v * 2 ^ k + n div 2 mod 2 ^ k"] by simp
  also have "\<dots> = v * 2 ^ Suc k + n mod 2 ^ Suc k"
    by (simp add: mod_mult2_eq algebra_simps)
  finally show ?case .
qed

lemma takeBits_1: "takeBits input 1 bs = ([hd (refill input bs)], tl (refill input bs))"
  by (simp add: Let_def)

lemma readUIntLoop_stream:
  assumes "wfReader input st"
  shows "\<exists>st1. readUIntLoop input k v st =
             Inr (fromBits v (fst (takeBits input k (remaining input st))), st1)
           \<and> remaining input st1 = snd (takeBits input k (remaining input st))
           \<and> wfReader input st1 \<and> codecFields st1 = codecFields st"
  using assms
proof (induction k arbitrary: v st)
  case 0
  then show ?case by simp
next
  case (Suc k)
  obtain st1 where r: "readBit input st = Inr (hd (refill input (remaining input st)), st1)"
    "remaining input st1 = tl (refill input (remaining input st))"
    "wfReader input st1" "codecFields st1 = codecFields st"
    using readBit_stream [OF Suc.prems] by blast
  from Suc.IH [OF r(3), of "push_bit 1 v OR hd (refill input (remaining input st))"]
  show ?case by (simp add: r Let_def split_beta)
qed

lemma readLeaf_value: "of_nat (fromBits 0 (bitsOfNat 8 (unat (v :: byte)))) = v"
proof -
  have "unat v < 2 ^ 8"
    using unsigned_less [of v, where ?'a = nat] by simp
  then have "fromBits 0 (bitsOfNat 8 (unat v)) = unat v"
    by (simp only: fromBits_bitsOfNat) simp
  then show ?thesis by simp
qed

lemma readTreeRecurse_stream:
  assumes "wfReader input st"
    and "takeBits input (length (treeSerial t)) (remaining input st) = (treeSerial t, rest)"
  shows "\<exists>st1. readTreeRecurse input st = Some (Inr (t, st1))
           \<and> remaining input st1 = rest \<and> wfReader input st1 \<and> codecFields st1 = codecFields st"
  using assms
proof (induction t arbitrary: st rest)
  case (Leaf v e)
  obtain st1 where r1: "readBit input st = Inr (hd (refill input (remaining input st)), st1)"
    "remaining input st1 = tl (refill input (remaining input st))"
    "wfReader input st1" "codecFields st1 = codecFields st"
    using readBit_stream [OF Leaf.prems(1)] by blast
  obtain st2 where r2: "readBit input st1 = Inr (hd (refill input (remaining input st1)), st2)"
    "remaining input st2 = tl (refill input (remaining input st1))"
    "wfReader input st2" "codecFields st2 = codecFields st1"
    using readBit_stream [OF r1(3)] by blast
  obtain st3 where r3: "readUIntLoop input 8 0 st2 =
        Inr (fromBits 0 (fst (takeBits input 8 (remaining input st2))), st3)"
    "remaining input st3 = snd (takeBits input 8 (remaining input st2))"
    "wfReader input st3" "codecFields st3 = codecFields st2"
    using readUIntLoop_stream [OF r2(3), of 8 0] by blast
  from Leaf.prems(2) have "takeBits input (1 + (1 + 8)) (remaining input st) =
      (1 # (if e then 1 else 0) # bitsOfNat 8 (unat v), rest)" by simp
  then have t: "hd (refill input (remaining input st)) = 1"
    "hd (refill input (remaining input st1)) = (if e then 1 else 0)"
    "fst (takeBits input 8 (remaining input st2)) = bitsOfNat 8 (unat v)"
    "snd (takeBits input 8 (remaining input st2)) = rest"
    unfolding takeBits_add takeBits_1
    by (simp_all add: r1(2) r2(2))
  have b1: "readBit input st = Inr (1, st1)" using r1(1) t(1) by simp
  have b2: "readBit input st1 = Inr (if e then 1 else 0, st2)" using r2(1) t(2) by simp
  have b3: "readUInt input 8 st2 = Inr (fromBits 0 (bitsOfNat 8 (unat v)), st3)"
    using r3(1) t(3) by (simp add: readUInt_def)
  have fin: "remaining input st3 = rest" "codecFields st3 = codecFields st"
    using r3(2,4) t(4) r2(4) r1(4) by simp_all
  show ?case
    by (subst readTreeRecurse.simps) (simp add: b1 b2 b3 fin r3(3) readLeaf_value)
next
  case (Internal l r)
  obtain st1 where r1: "readBit input st = Inr (hd (refill input (remaining input st)), st1)"
    "remaining input st1 = tl (refill input (remaining input st))"
    "wfReader input st1" "codecFields st1 = codecFields st"
    using readBit_stream [OF Internal.prems(1)] by blast
  let ?nl = "length (treeSerial l)" and ?nr = "length (treeSerial r)"
  from Internal.prems(2) have "takeBits input (Suc (?nl + ?nr)) (remaining input st) = (0 # treeSerial l @ treeSerial r, rest)"
    by simp
  then have h: "hd (refill input (remaining input st)) = 0"
    "takeBits input (?nl + ?nr) (remaining input st1) = (treeSerial l @ treeSerial r, rest)"
    by (simp_all add: Let_def split_beta r1 prod_eq_iff)
  from h(2) have both: "fst (takeBits input ?nl (remaining input st1)) @
        fst (takeBits input ?nr (snd (takeBits input ?nl (remaining input st1)))) = treeSerial l @ treeSerial r"
    "snd (takeBits input ?nr (snd (takeBits input ?nl (remaining input st1)))) = rest"
    by (simp_all add: takeBits_add)
  from both(1) have fl: "fst (takeBits input ?nl (remaining input st1)) = treeSerial l"
    and fr: "fst (takeBits input ?nr (snd (takeBits input ?nl (remaining input st1)))) = treeSerial r"
    by (simp_all add: append_eq_append_conv)
  obtain st2 where r2: "readTreeRecurse input st1 = Some (Inr (l, st2))"
    "remaining input st2 = snd (takeBits input ?nl (remaining input st1))"
    "wfReader input st2" "codecFields st2 = codecFields st1"
    using Internal.IH(1) [OF r1(3), of "snd (takeBits input ?nl (remaining input st1))"] fl
    by (auto simp: prod_eq_iff)
  obtain st3 where r3: "readTreeRecurse input st2 = Some (Inr (r, st3))"
    "remaining input st3 = rest"
    "wfReader input st3" "codecFields st3 = codecFields st2"
    using Internal.IH(2) [OF r2(3), of rest] fr both(2) r2(2)
    by (auto simp: prod_eq_iff)
  have b1: "readBit input st = Inr (0, st1)" using r1(1) h(1) by simp
  have fin: "codecFields st3 = codecFields st" using r3(4) r2(4) r1(4) by simp
  show ?case
    by (subst readTreeRecurse.simps) (simp add: b1 r2(1) r3(1,2,3) fin)
qed

lemma root_codecFields: "codecFields st1 = codecFields st \<Longrightarrow> root st1 = root st"
  by (simp add: codecFields_def)

lemma decodeLoop_walk:
  assumes "wfReader input st"
  shows "\<exists>st1. decodeLoop input n out st = Inr (fst (walk (root st) n out (remaining input st)), st1)
           \<and> remaining input st1 = fst (snd (walk (root st) n out (remaining input st)))
           \<and> root st1 = root st \<and> wfReader input st1"
  using assms
proof (induction "remaining input st" arbitrary: st n out)
  case Nil
  then have "\<not> readBitAvailable input st" by (simp add: readBitAvailable_remaining)
  with Nil(1) [symmetric] Nil.prems show ?case by (subst decodeLoop.simps) simp
next
  case (Cons b bs)
  from Cons.hyps(2) [symmetric] have rem: "remaining input st = b # bs" .
  then have av: "readBitAvailable input st" using Cons.prems by (simp add: readBitAvailable_remaining)
  obtain st1 where r: "readBit input st = Inr (b, st1)" "remaining input st1 = bs"
    "wfReader input st1" "codecFields st1 = codecFields st"
    using readBit_stream [OF Cons.prems] by (auto simp: rem refill_def)
  have rt: "root st1 = root st" by (rule root_codecFields [OF r(4)])
  show ?case
  proof (cases "descend n b")
    case (Leaf v e)
    show ?thesis
    proof (cases e)
      case True
      with Leaf show ?thesis
        by (subst decodeLoop.simps) (simp add: av r rem rt)
    next
      case False
      from Cons.hyps(1) [OF r(2) [symmetric] r(3), of "root st1" "out @ [v]"] Leaf False
      show ?thesis
        by (subst decodeLoop.simps) (simp add: av r rem rt)
    qed
  next
    case (Internal l1 r1)
    from Cons.hyps(1) [OF r(2) [symmetric] r(3), of "Internal l1 r1" out] Internal
    show ?thesis
      by (subst decodeLoop.simps) (simp add: av r rem rt)
  qed
qed

lemma remaining_clear: "remaining input clear = bufferBits input"
  by (simp add: remaining_def readerPending_def clear_def)

lemma wfReader_clear: "wfReader input clear"
  by (simp add: wfReader_def clear_def)

lemma decode_stream:
  assumes "takeBits payload (length (treeSerial t)) (bufferBits payload) = (treeSerial t, rest)"
  shows "\<exists>st. decode payload = Some (Inr (fst (walk t t [] rest), st))
           \<and> remaining payload st = fst (snd (walk t t [] rest)) \<and> root st = t
           \<and> wfReader payload st"
proof -
  obtain st1 where r: "readTreeRecurse payload clear = Some (Inr (t, st1))"
    "remaining payload st1 = rest" "wfReader payload st1"
    using readTreeRecurse_stream [OF wfReader_clear, of payload t rest] assms
    by (auto simp: remaining_clear)
  have w: "wfReader payload (st1\<lparr>root := t\<rparr>)" using r(3) by (simp add: wfReader_def)
  have rem: "remaining payload (st1\<lparr>root := t\<rparr>) = rest"
    using r(2) by (auto simp: remaining_def readerPending_def)
  from decodeLoop_walk [OF w, of t "[]"] show ?thesis
    by (auto simp: decode_def readTree_def r rem)
qed

section \<open>Leaves of the tree and coverage of the table\<close>

lemma leafBag_mergeStep:
  assumes "1 < length occs"
  shows "leafBag (mergeStep occs) = leafBag occs"
proof -
  obtain a b rest where s: "sort_key snd occs = a # b # rest"
    using sort_key_two [OF assms] by metis
  have "leafBag occs = (\<Sum>e\<in>#mset (sort_key snd occs). mset (leaves (fst e)))"
    by (simp add: leafBag_def)
  also have "\<dots> = leafBag (mergeStep occs)"
    by (simp add: s mergeStep_def leafBag_def)
  finally show ?thesis by simp
qed

lemma leafBag_mergeLoop: "leafBag (mergeLoop occs) = leafBag occs"
proof (induction occs rule: mergeLoop.induct)
  case (1 occs)
  show ?case
  proof (cases "1 < length occs")
    case True
    with 1 show ?thesis by (subst mergeLoop.simps) (simp add: leafBag_mergeStep)
  next
    case False
    then show ?thesis by (subst mergeLoop.simps) simp
  qed
qed

lemma leafBag_occurrences:
  "leafBag (occurrences data) = mset (map (\<lambda>v. (v, False)) (sorted_list_of_set (set data))) + {#(0, True)#}"
proof -
  have "(\<Sum>e\<in>#mset (map (\<lambda>v. (Leaf v False, count_list data v)) xs). mset (leaves (fst e)))
        = mset (map (\<lambda>v. (v, False)) xs)" for xs
    by (induction xs) simp_all
  then show ?thesis by (simp add: leafBag_def occurrences_eq)
qed

lemma generateTree_leaves:
  "mset (leaves (root (generateTree data st))) =
     mset (map (\<lambda>v. (v, False)) (sorted_list_of_set (set data))) + {#(0, True)#}"
proof -
  obtain e where e: "mergeLoop (occurrences data) = [e]" "generateTree data st = st\<lparr>root := fst e\<rparr>"
    using generateTree_root by blast
  have "leafBag [e] = leafBag (occurrences data)"
    using leafBag_mergeLoop [of "occurrences data"] by (simp add: e)
  then show ?thesis by (simp add: e leafBag_occurrences) (simp add: leafBag_def)
qed

lemma generateTree_leaf_set:
  "set (leaves (root (generateTree data st))) = (\<lambda>v. (v, False)) ` set data \<union> {(0, True)}"
proof -
  have "set (leaves (root (generateTree data st))) = set_mset (mset (leaves (root (generateTree data st))))"
    by simp
  also have "\<dots> = (\<lambda>v. (v, False)) ` set data \<union> {(0, True)}"
    by (simp only: generateTree_leaves) auto
  finally show ?thesis .
qed

lemma generateTableRecurse_other:
  "root (generateTableRecurse n code st) = root st
   \<and> treeBits (generateTableRecurse n code st) = treeBits st
   \<and> dataBits (generateTableRecurse n code st) = dataBits st
   \<and> bytesRemaining (generateTableRecurse n code st) = bytesRemaining st
   \<and> bitsRemaining (generateTableRecurse n code st) = bitsRemaining st
   \<and> bits (generateTableRecurse n code st) = bits st"
  by (induction n arbitrary: code st) (simp_all add: Let_def)

lemma generateTableRecurse_keeps:
  "(table st v \<noteq> None \<longrightarrow> table (generateTableRecurse n code st) v \<noteq> None)
   \<and> (eob st \<noteq> None \<longrightarrow> eob (generateTableRecurse n code st) \<noteq> None)"
  by (induction n arbitrary: code st) (simp_all add: Let_def)

lemma generateTableRecurse_covers:
  "(v, e) \<in> set (leaves n) \<Longrightarrow>
     (if e then eob (generateTableRecurse n code st) \<noteq> None
      else table (generateTableRecurse n code st) v \<noteq> None)"
proof (induction n arbitrary: code st)
  case (Leaf v1 e1)
  then show ?case by (auto simp: Let_def)
next
  case (Internal l r)
  from Internal.prems consider "(v, e) \<in> set (leaves l)" | "(v, e) \<in> set (leaves r)" by auto
  then show ?case
  proof cases
    case 1
    from Internal.IH(1) [OF 1, of "code @ ''0''" st]
    show ?thesis
      using generateTableRecurse_keeps [of "generateTableRecurse l (code @ ''0'') st" v r "code @ ''1''"]
      by (auto split: if_splits)
  next
    case 2
    from Internal.IH(2) [OF 2, of "code @ ''1''" "generateTableRecurse l (code @ ''0'') st"]
    show ?thesis by simp
  qed
qed

lemma table_covers_data:
  "b \<in> set data \<Longrightarrow> table (generateTable (generateTree data clear)) b \<noteq> None"
  and eob_is_set: "eob (generateTable (generateTree data clear)) \<noteq> None"
proof -
  let ?t = "root (generateTree data clear)"
  show "eob (generateTable (generateTree data clear)) \<noteq> None"
    using generateTableRecurse_covers [of 0 True ?t] by (simp add: generateTable_def generateTree_leaf_set)
  assume "b \<in> set data"
  then have "(b, False) \<in> set (leaves ?t)" by (simp add: generateTree_leaf_set)
  then show "table (generateTable (generateTree data clear)) b \<noteq> None"
    using generateTableRecurse_covers [of b False ?t] by (simp add: generateTable_def)
qed

lemma generateTable_other:
  "root (generateTable st) = root st \<and> treeBits (generateTable st) = treeBits st
   \<and> dataBits (generateTable st) = dataBits st \<and> bytesRemaining (generateTable st) = bytesRemaining st
   \<and> bitsRemaining (generateTable st) = bitsRemaining st \<and> bits (generateTable st) = bits st"
  using generateTableRecurse_other [of "root st" "[]" "st\<lparr>table := Map.empty\<rparr>"]
  by (simp add: generateTable_def)

lemma encode_start:
  "bitsRemaining (generateTable (generateTree data clear)) = -1"
  "dataBits (generateTable (generateTree data clear)) = 0"
  "root (generateTable (generateTree data clear)) = root (generateTree data clear)"
proof -
  have g: "bitsRemaining (generateTree data clear) = -1" "dataBits (generateTree data clear) = 0"
    by (subst generateTree_fields, simp add: clear_def)+
  show "bitsRemaining (generateTable (generateTree data clear)) = -1"
    "dataBits (generateTable (generateTree data clear)) = 0"
    "root (generateTable (generateTree data clear)) = root (generateTree data clear)"
    using generateTable_other [of "generateTree data clear"] g by simp_all
qed

lemma treeBits_update_writer [simp]:
  "written (out, st\<lparr>treeBits := n\<rparr>) = written (out, st)"
  "wfWriter (out, st\<lparr>treeBits := n\<rparr>) = wfWriter (out, st)"
  "codecFields (st\<lparr>treeBits := n\<rparr>) = (eob st, table st, root st, n, dataBits st)"
  by (simp_all add: written_def writerPending_def wfWriter_def codecFields_def)

lemma writeTree_written:
  assumes "wfWriter w"
  shows "written (writeTree w) = written w @ treeSerial (root (snd w))"
    and "wfWriter (writeTree w)"
    and "codecFields (snd (writeTree w)) =
           (eob (snd w), table (snd w), root (snd w), length (treeSerial (root (snd w))), dataBits (snd w))"
proof -
  obtain out1 st1 n where r: "writeTreeRecurse w (root (snd w)) = ((out1, st1), n)"
    by (metis surj_pair)
  note h = writeTreeRecurse_written [OF assms, of "root (snd w)", unfolded r, simplified]
  have wt: "writeTree w = (out1, st1\<lparr>treeBits := n\<rparr>)" by (simp add: writeTree_def r)
  show "written (writeTree w) = written w @ treeSerial (root (snd w))"
    and "wfWriter (writeTree w)"
    using h by (simp_all add: wt)
  have "codecFields st1 = codecFields (snd w)" using h by simp
  then show "codecFields (snd (writeTree w)) =
           (eob (snd w), table (snd w), root (snd w), length (treeSerial (root (snd w))), dataBits (snd w))"
    using h by (simp add: wt) (simp add: codecFields_def)
qed

lemma writeData_written:
  assumes "wfWriter w" and "\<forall>b\<in>set data. table (snd w) b \<noteq> None"
  shows "\<exists>w2. writeData w data = Inr w2
           \<and> written w2 = written w @ concat (map (symbolBits (snd w)) data)
           \<and> wfWriter w2 \<and> codecFields (snd w2) = codecFields (snd w)"
  using assms
proof (induction data arbitrary: w)
  case Nil
  then show ?case by simp
next
  case (Cons b bs)
  then obtain code where c: "table (snd w) b = Some code" by auto
  note s = writeCode_written [OF Cons.prems(1), of code]
  have t: "table (snd (writeCode w code)) = table (snd w)"
    using s(3) by (simp add: codecFields_def)
  have "\<forall>b\<in>set bs. table (snd (writeCode w code)) b \<noteq> None"
    using Cons.prems(2) by (simp add: t)
  from Cons.IH [OF s(2) this] show ?case
    using s t by (auto simp: c symbolBits_def)
qed

section \<open>What encode writes\<close>

lemma length_written:
  "wfWriter w \<Longrightarrow>
   length (written w) = 8 * length (fst w) + (if bitsRemaining (snd w) < 0 then 0 else 8 - nat (bitsRemaining (snd w)))"
  by (auto simp: written_def writerPending_def wfWriter_def length_concat o_def sum_list_triv)

lemma bitsOfNat_push: "bitsOfNat (m + k) (push_bit k b) = bitsOfNat m b @ replicate k 0"
proof (induction k)
  case 0
  then show ?case by simp
next
  case (Suc k)
  have "bitsOfNat (Suc (m + k)) (2 * push_bit k b + 0) = bitsOfNat (m + k) (push_bit k b) @ [0]"
    by (rule bitsOfNat_snoc) simp
  then show ?case
    by (simp add: Suc.IH replicate_append_same push_bit_double mult.commute)
qed

lemma bitsOfNat_take_bit: "bitsOfNat k (take_bit k n) = bitsOfNat k n"
proof -
  have "\<And>i. i < k \<Longrightarrow> drop_bit (k - 1 - i) (take_bit k n) AND 1 = drop_bit (k - 1 - i) n AND 1"
  proof -
    fix i assume "i < k"
    then have "bit (take_bit k n) (k - 1 - i) = bit n (k - 1 - i)" by (simp add: bit_take_bit_iff)
    then show "drop_bit (k - 1 - i) (take_bit k n) AND 1 = drop_bit (k - 1 - i) n AND 1"
      by (simp add: and_one_eq bit_iff_odd_drop_bit mod_2_eq_odd)
  qed
  then show ?thesis unfolding bitsOfNat_def by (intro map_cong) auto
qed

lemma bufferBits_Buffer_from: "bufferBits (Buffer_from xs) = concat (map (bitsOfNat 8) xs)"
proof -
  have "bitsOfNat 8 (unat (of_nat x :: byte)) = bitsOfNat 8 x" for x
    using bitsOfNat_take_bit [of 8 x] by (simp add: unsigned_of_nat)
  then show ?thesis by (simp add: bufferBits_def Buffer_from_def o_def)
qed

lemma mod8_pending:
  fixes j l :: nat
  assumes "j \<le> 7"
  shows "(8 * l + (8 - j)) mod 8 = (if j = 0 then 0 else 8 - j)"
proof -
  have "(8 * l + (8 - j)) mod 8 = (8 - j) mod 8" by (rule mod_mult_self4)
  also have "\<dots> = (if j = 0 then 0 else 8 - j)" using assms by simp
  finally show ?thesis .
qed

lemma writeFinish_padded:
  assumes "wfWriter w" and "length (written w) mod 8 \<noteq> 0"
  shows "concat (map (bitsOfNat 8) (fst (writeFinish w))) =
           written w @ replicate (8 - length (written w) mod 8) 0"
    and "length (fst (writeFinish w)) = (length (written w) + 7) div 8"
    and "codecFields (snd (writeFinish w)) = codecFields (snd w)"
proof -
  obtain out st where w: "w = (out, st)" by (cases w)
  have nz: "bitsRemaining st \<noteq> 0" "bitsRemaining st \<noteq> -1"
    using assms by (auto simp: length_written w wfWriter_def)
  with assms(1) have k: "1 \<le> bitsRemaining st" "bitsRemaining st \<le> 7"
    by (auto simp: w wfWriter_def)
  define k where "k = nat (bitsRemaining st)"
  have kk: "1 \<le> k" "k \<le> 7" "bitsRemaining st = int k" using k by (auto simp: k_def)
  have n: "length (written w) = 8 * length out + (8 - k)"
    using assms(1) kk by (simp add: length_written w)
  have pad: "bitsOfNat 8 (push_bit k (bits st)) = bitsOfNat (8 - k) (bits st) @ replicate k 0"
    using bitsOfNat_push [of "8 - k" k "bits st"] kk by simp
  have m: "(8 * length out + (8 - k)) mod 8 = 8 - k" using kk by (simp only: mod8_pending) simp
  have fin: "fst (writeFinish w) = out @ [push_bit k (bits st)]"
    using kk by (simp add: w writeFinish_def)
  have wr: "written w = concat (map (bitsOfNat 8) out) @ bitsOfNat (8 - k) (bits st)"
    using kk by (simp add: w written_def writerPending_def)
  have pk: "8 - length (written w) mod 8 = k"
    using kk by (simp only: n m)
  show "concat (map (bitsOfNat 8) (fst (writeFinish w))) =
           written w @ replicate (8 - length (written w) mod 8) 0"
    by (simp only: pk) (simp add: fin wr pad)
  have "(8 * length out + (8 - k) + 7) div 8 = length out + 1"
    using kk by simp
  then show "length (fst (writeFinish w)) = (length (written w) + 7) div 8"
    by (simp only: n fin) simp
  show "codecFields (snd (writeFinish w)) = codecFields (snd w)"
    by (simp add: w writeFinish_def codecFields_def)
qed

lemma writeFinish_dropped:
  assumes "wfWriter w" and "length (written w) mod 8 = 0" and "written w \<noteq> []"
  shows "concat (map (bitsOfNat 8) (fst (writeFinish w))) = take (length (written w) - 8) (written w)"
    and "length (fst (writeFinish w)) = length (written w) div 8 - 1"
    and "codecFields (snd (writeFinish w)) = codecFields (snd w)"
proof -
  obtain out st where w: "w = (out, st)" by (cases w)
  have k: "bitsRemaining st = 0"
  proof -
    from assms(1,3) have "0 \<le> bitsRemaining st" "bitsRemaining st \<le> 7"
      by (auto simp: w wfWriter_def written_def writerPending_def)
    moreover from this assms(1,2) have "(8 * length out + (8 - nat (bitsRemaining st))) mod 8 = 0"
      by (simp add: length_written w)
    ultimately show ?thesis by (simp only: mod8_pending split: if_splits)
  qed
  have n: "length (written w) = 8 * length out + 8"
    using assms(1) k by (simp add: length_written w)
  show "concat (map (bitsOfNat 8) (fst (writeFinish w))) = take (length (written w) - 8) (written w)"
    using k by (simp add: n) (simp add: w writeFinish_def written_def writerPending_def length_concat o_def sum_list_triv)
  show "length (fst (writeFinish w)) = length (written w) div 8 - 1"
    using k by (simp add: n) (simp add: w writeFinish_def)
  show "codecFields (snd (writeFinish w)) = codecFields (snd w)"
    using k by (simp add: w writeFinish_def codecFields_def)
qed

text \<open>What \<^verbatim>\<open>encode\<close> has written when it calls \<^verbatim>\<open>writeFinish\<close>, and the fields it leaves.\<close>

lemma encode_before_finish:
  "\<exists>w. wfWriter w \<and> written w = encodedBits data
     \<and> codecFields (snd w) =
         (eob (generateTable (generateTree data clear)), table (generateTable (generateTree data clear)),
          root (generateTree data clear), length (treeSerial (root (generateTree data clear))), 0)
     \<and> encode data = Inr (Buffer_from (fst (writeFinish w)), snd (writeFinish w))"
proof -
  let ?st2 = "generateTable (generateTree data clear)"
  let ?t = "root (generateTree data clear)"
  have w0: "wfWriter ([], ?st2)" "written ([], ?st2) = []"
    by (simp_all add: wfWriter_def written_def writerPending_def encode_start)
  note w1 = writeTree_written [OF w0(1)]
  have t1: "table (snd (writeTree ([], ?st2))) = table ?st2" "eob (snd (writeTree ([], ?st2))) = eob ?st2"
    using w1(3) by (simp_all add: codecFields_def)
  have "\<forall>b\<in>set data. table (snd (writeTree ([], ?st2))) b \<noteq> None"
    by (simp add: t1 table_covers_data)
  from writeData_written [OF w1(2) this]
  obtain w2 where w2: "writeData (writeTree ([], ?st2)) data = Inr w2"
    "written w2 = written (writeTree ([], ?st2)) @ concat (map (symbolBits (snd (writeTree ([], ?st2)))) data)"
    "wfWriter w2" "codecFields (snd w2) = codecFields (snd (writeTree ([], ?st2)))"
    by blast
  obtain code where code: "eob ?st2 = Some code" using eob_is_set [of data] by auto
  have e2: "eob (snd w2) = Some code" using w2(4) t1(2) code by (simp add: codecFields_def)
  note w3 = writeCode_written [OF w2(3), of code]
  have sb: "symbolBits (snd (writeTree ([], ?st2))) = symbolBits ?st2"
    by (simp add: fun_eq_iff symbolBits_def t1)
  have "written (writeCode w2 code) = encodedBits data"
    by (simp add: w3(1) w2(2) w1(1) w0(2) sb encodedBits_def Let_def eobBits_def code encode_start)
  moreover have "codecFields (snd (writeCode w2 code)) =
         (eob ?st2, table ?st2, ?t, length (treeSerial ?t), 0)"
    by (simp add: w3(3) w2(4) w1(3) encode_start)
  moreover have "encode data = Inr (Buffer_from (fst (writeFinish (writeCode w2 code))), snd (writeFinish (writeCode w2 code)))"
    by (simp add: encode_def Let_def w2(1) e2 split_beta)
  ultimately show ?thesis using w3(2) by blast
qed

lemma encodedBits_nonempty: "encodedBits data \<noteq> []"
  by (cases "root (generateTable (generateTree data clear))") (simp_all add: encodedBits_def Let_def)

section \<open>Decoding a truncated payload\<close>

lemma walk_exhausted: "snd (snd (walk rt n out bs)) = False \<Longrightarrow> fst (snd (walk rt n out bs)) = []"
  by (induction rt n out bs rule: walk.induct) (auto split: node.splits if_splits)

lemma decode_prefix:
  assumes "bufferBits payload = treeSerial t @ rest"
  shows "\<exists>st. decode payload = Some (Inr (fst (walk t t [] rest), st))
           \<and> remaining payload st = fst (snd (walk t t [] rest)) \<and> root st = t
           \<and> wfReader payload st"
  using decode_stream [of payload t rest] by (simp add: assms takeBits_prefix)

text \<open>
  C3, as the code has it. Take a payload whose bits begin with a complete serialized
  tree, and let the bits after the tree run out before the walk reaches an End-Of-Block
  leaf (a payload truncated in its data section). Then \<^verbatim>\<open>decode\<close> does not fail: its loop
  is guarded by \<^verbatim>\<open>readBitAvailable\<close>, it stops when no bit is left, and \<^verbatim>\<open>decode\<close> returns
  the symbols decoded up to there.
\<close>

theorem decode_exhausted_returns_partial:
  assumes "bufferBits payload = treeSerial t @ rest"
    and "walk t t [] rest = (out, rest1, False)"
  shows "\<exists>st. decode payload = Some (Inr (out, st)) \<and> \<not> readBitAvailable payload st"
proof -
  from decode_prefix [OF assms(1)] obtain st where
    st: "decode payload = Some (Inr (out, st))" "remaining payload st = rest1" "wfReader payload st"
    by (auto simp: assms(2))
  have "rest1 = []" using walk_exhausted [of t t "[]" rest] by (simp add: assms(2))
  then have "\<not> readBitAvailable payload st"
    using st by (simp add: readBitAvailable_remaining)
  with st show ?thesis by blast
qed

lemma truncated_bits:
  "bufferBits [0x48, 0x38, 0x00] = treeSerial (Internal (Leaf 65 False) (Leaf 0 True)) @ [0, 0, 0]"
  by code_simp

lemma truncated_walk:
  "walk (Internal (Leaf 65 False) (Leaf 0 True)) (Internal (Leaf 65 False) (Leaf 0 True)) [] [0, 0, 0]
     = ([65, 65, 65], [], False)"
  by code_simp

theorem decode_exhausted_returns_partial_witness:
  "bufferBits [0x48, 0x38, 0x00] = treeSerial (Internal (Leaf 65 False) (Leaf 0 True)) @ [0, 0, 0]
   \<and> walk (Internal (Leaf 65 False) (Leaf 0 True)) (Internal (Leaf 65 False) (Leaf 0 True)) [] [0, 0, 0]
       = ([65, 65, 65], [], False)
   \<and> (\<exists>st. decode [0x48, 0x38, 0x00] = Some (Inr ([65, 65, 65], st))
          \<and> \<not> readBitAvailable [0x48, 0x38, 0x00] st)"
  using decode_exhausted_returns_partial [OF truncated_bits truncated_walk] truncated_bits truncated_walk
  by blast

text \<open>
  C3 as stated fails on the three-byte payload 0x48 0x38 0x00: a complete tree (the leaf
  65 and the End-Of-Block leaf), then three 0 bits, which never reach the End-Of-Block
  leaf. \<^verbatim>\<open>decode\<close> does not fail with OutOfData.
\<close>

theorem decode_truncated_counterexample:
  "bufferBits [0x48, 0x38, 0x00] = treeSerial (Internal (Leaf 65 False) (Leaf 0 True)) @ [0, 0, 0]
   \<and> snd (snd (walk (Internal (Leaf 65 False) (Leaf 0 True)) (Internal (Leaf 65 False) (Leaf 0 True)) [] [0, 0, 0])) = False
   \<and> decode [0x48, 0x38, 0x00] \<noteq> Some (Inl OutOfData)"
  using decode_prefix [OF truncated_bits] truncated_bits truncated_walk
  by auto

section \<open>Size accounting\<close>

lemma encode_fields:
  "\<exists>payload st. encode data = Inr (payload, st)
     \<and> codecFields st =
         (eob (generateTable (generateTree data clear)), table (generateTable (generateTree data clear)),
          root (generateTree data clear), length (treeSerial (root (generateTree data clear))), 0)
     \<and> (length (encodedBits data) mod 8 \<noteq> 0 \<longrightarrow>
           bufferBits payload = encodedBits data @ replicate (8 - length (encodedBits data) mod 8) 0
           \<and> length payload = (length (encodedBits data) + 7) div 8)
     \<and> (length (encodedBits data) mod 8 = 0 \<longrightarrow>
           bufferBits payload = take (length (encodedBits data) - 8) (encodedBits data)
           \<and> length payload = length (encodedBits data) div 8 - 1)"
proof -
  obtain w where w: "wfWriter w" "written w = encodedBits data"
    "codecFields (snd w) =
         (eob (generateTable (generateTree data clear)), table (generateTable (generateTree data clear)),
          root (generateTree data clear), length (treeSerial (root (generateTree data clear))), 0)"
    "encode data = Inr (Buffer_from (fst (writeFinish w)), snd (writeFinish w))"
    using encode_before_finish by blast
  have ne: "written w \<noteq> []" by (simp add: w(2) encodedBits_nonempty)
  show ?thesis
  proof (cases "length (encodedBits data) mod 8 = 0")
    case True
    then have m: "length (written w) mod 8 = 0" by (simp add: w(2))
    note f = writeFinish_dropped [OF w(1) m ne]
    show ?thesis
      using True f w by (simp add: bufferBits_Buffer_from) (simp add: Buffer_from_def)
  next
    case False
    then have m: "length (written w) mod 8 \<noteq> 0" by (simp add: w(2))
    note f = writeFinish_padded [OF w(1) m]
    show ?thesis
      using False f w by (simp add: bufferBits_Buffer_from) (simp add: Buffer_from_def)
  qed
qed

lemma encodedBits_length:
  "length (encodedBits data) =
     length (treeSerial (root (generateTree data clear)))
     + sum_list (map (\<lambda>b. length (symbolBits (generateTable (generateTree data clear)) b)) data)
     + length (eobBits (generateTable (generateTree data clear)))"
  by (simp add: encodedBits_def Let_def encode_start length_concat o_def)

text \<open>
  C5, as the code has it. \<^verbatim>\<open>encode\<close> always completes. Afterwards \<^verbatim>\<open>treeBits\<close> is the number
  of bits of the serialized tree, and \<^verbatim>\<open>dataBits\<close> is still 0: nothing in \<^verbatim>\<open>encode\<close> counts
  the data bits. The number of bits written is \<^verbatim>\<open>treeBits\<close> plus the lengths of the codes
  of the input bytes plus the length of the End-Of-Block code, and when that number is
  not a multiple of 8 the payload has that number of bits, divided by 8 and rounded up,
  bytes.
\<close>

theorem encode_size_accounting:
  "\<exists>payload st. encode data = Inr (payload, st)
     \<and> treeBits st = length (treeSerial (root st))
     \<and> dataBits st = 0
     \<and> length (encodedBits data) =
           treeBits st + sum_list (map (\<lambda>b. length (symbolBits st b)) data) + length (eobBits st)
     \<and> (length (encodedBits data) mod 8 \<noteq> 0 \<longrightarrow>
           length payload = (length (encodedBits data) + 7) div 8)"
proof -
  obtain payload st where e: "encode data = Inr (payload, st)"
    "codecFields st =
         (eob (generateTable (generateTree data clear)), table (generateTable (generateTree data clear)),
          root (generateTree data clear), length (treeSerial (root (generateTree data clear))), 0)"
    "length (encodedBits data) mod 8 \<noteq> 0 \<longrightarrow> length payload = (length (encodedBits data) + 7) div 8"
    using encode_fields [of data] by blast
  from e(2) have f: "eob st = eob (generateTable (generateTree data clear))"
    "table st = table (generateTable (generateTree data clear))"
    "root st = root (generateTree data clear)"
    "treeBits st = length (treeSerial (root (generateTree data clear)))" "dataBits st = 0"
    by (simp_all add: codecFields_def)
  have s: "symbolBits st = symbolBits (generateTable (generateTree data clear))"
    "eobBits st = eobBits (generateTable (generateTree data clear))"
    by (simp_all add: fun_eq_iff symbolBits_def eobBits_def f)
  show ?thesis
    using e(1,3) by (simp add: f s encodedBits_length)
qed

lemma encodedBits_empty: "encodedBits [] = [1, 1, 0, 0, 0, 0, 0, 0, 0, 0, 0]"
  by code_simp

text \<open>The empty buffer: 10 tree bits, 11 bits written, a payload of 2 bytes.\<close>

theorem encode_size_accounting_witness:
  "\<exists>payload st. encode [] = Inr (payload, st) \<and> treeBits st = 10 \<and> dataBits st = 0
     \<and> length (encodedBits []) = 11 \<and> length (encodedBits []) mod 8 \<noteq> 0 \<and> length payload = 2"
proof -
  from encode_size_accounting [of "[]"] obtain payload st where
    e: "encode [] = Inr (payload, st)" "dataBits st = 0"
      "length (encodedBits []) mod 8 \<noteq> 0 \<longrightarrow> length payload = (length (encodedBits []) + 7) div 8"
    by blast
  have len: "length (encodedBits []) = 11" by (simp only: encodedBits_empty) simp
  have "map_sum id (\<lambda>(p, st). treeBits st) (encode []) = Inr 10" by code_simp
  with e(1) have t: "treeBits st = 10" by simp
  from e(3) have p: "length payload = 2" by (simp only: len) simp
  from e(1,2) t len p show ?thesis by simp
qed

lemma encode_65_65:
  "map_sum id (\<lambda>(p, st). (p, treeBits st, dataBits st)) (encode [65, 65]) = Inr ([0x48, 0x38], 21, 0)"
  by code_simp

lemma encodedBits_65_65: "length (encodedBits [65, 65]) = 24"
  by code_simp

text \<open>
  C5 as stated fails on the buffer 65, 65: \<^verbatim>\<open>treeBits + dataBits\<close> is 21 while 24 bits are
  written, and the payload has 2 bytes, which is neither 24 / 8 nor 21 / 8 rounded up.
\<close>

theorem encode_size_accounting_counterexample:
  "\<exists>payload st. encode [65, 65] = Inr (payload, st)
     \<and> treeBits st + dataBits st = 21 \<and> length (encodedBits [65, 65]) = 24 \<and> length payload = 2
     \<and> treeBits st + dataBits st \<noteq> length (encodedBits [65, 65])
     \<and> length payload \<noteq> (length (encodedBits [65, 65]) + 7) div 8
     \<and> length payload \<noteq> (treeBits st + dataBits st + 7) div 8"
proof (cases "encode [65, 65]")
  case (Inl e)
  with encode_65_65 show ?thesis by simp
next
  case (Inr r)
  with encode_65_65 show ?thesis by (cases r) (simp add: encodedBits_65_65)
qed

section \<open>Tree serialization round trip\<close>

lemma readTree_prefix:
  assumes "bufferBits input = treeSerial t @ rest"
  shows "\<exists>st1. readTree input clear = Some (Inr st1) \<and> root st1 = t \<and> remaining input st1 = rest"
proof -
  obtain st1 where r: "readTreeRecurse input clear = Some (Inr (t, st1))" "remaining input st1 = rest"
    using readTreeRecurse_stream [OF wfReader_clear, of input t rest]
    by (auto simp: remaining_clear assms takeBits_prefix)
  have "remaining input (st1\<lparr>root := t\<rparr>) = rest"
    using r(2) by (auto simp: remaining_def readerPending_def)
  then show ?thesis by (simp add: readTree_def r)
qed

lemma writeTree_fresh:
  "written (writeTree ([], generateTable (generateTree data clear))) = treeSerial (root (generateTree data clear))"
  "treeBits (snd (writeTree ([], generateTable (generateTree data clear)))) = length (treeSerial (root (generateTree data clear)))"
proof -
  let ?st2 = "generateTable (generateTree data clear)"
  have w0: "wfWriter ([], ?st2)" "written ([], ?st2) = []"
    by (simp_all add: wfWriter_def written_def writerPending_def encode_start)
  note w1 = writeTree_written [OF w0(1)]
  show "written (writeTree ([], ?st2)) = treeSerial (root (generateTree data clear))"
    using w1(1) by (simp add: w0(2) encode_start)
  show "treeBits (snd (writeTree ([], ?st2))) = length (treeSerial (root (generateTree data clear)))"
    using w1(3) by (simp add: codecFields_def encode_start)
qed

text \<open>
  C10. For the tree that \<^verbatim>\<open>generateTree\<close> builds from any input buffer, \<^verbatim>\<open>writeTree\<close>
  reports in \<^verbatim>\<open>treeBits\<close> the number of bits it has emitted; and \<^verbatim>\<open>readTree\<close>, on any buffer
  whose bits begin with the emitted sequence, returns a tree equal to the one written
  (same shape, same leaf values, same End-Of-Block flags) and leaves unread exactly the
  bits after that sequence: it has consumed \<^verbatim>\<open>treeBits\<close> bits. The payload of \<^verbatim>\<open>encode\<close> is
  such a buffer whenever the number of bits written is not a multiple of 8.
\<close>

theorem tree_serialization_roundtrip:
  "treeBits (snd (writeTree ([], generateTable (generateTree data clear))))
     = length (written (writeTree ([], generateTable (generateTree data clear))))
   \<and> (bufferBits input = written (writeTree ([], generateTable (generateTree data clear))) @ rest \<longrightarrow>
        (\<exists>st1. readTree input clear = Some (Inr st1)
           \<and> root st1 = root (generateTree data clear)
           \<and> remaining input st1 = rest
           \<and> length (bufferBits input) - length (remaining input st1)
                = treeBits (snd (writeTree ([], generateTable (generateTree data clear))))))
   \<and> (length (encodedBits data) mod 8 \<noteq> 0 \<longrightarrow>
        (\<exists>payload st2 st1. encode data = Inr (payload, st2)
           \<and> readTree payload clear = Some (Inr st1)
           \<and> root st1 = root st2
           \<and> length (bufferBits payload) - length (remaining payload st1) = treeBits st2))"
proof (intro conjI impI)
  show "treeBits (snd (writeTree ([], generateTable (generateTree data clear))))
     = length (written (writeTree ([], generateTable (generateTree data clear))))"
    by (simp add: writeTree_fresh)
next
  assume "bufferBits input = written (writeTree ([], generateTable (generateTree data clear))) @ rest"
  then have b: "bufferBits input = treeSerial (root (generateTree data clear)) @ rest"
    by (simp add: writeTree_fresh)
  from readTree_prefix [OF b] obtain st1 where
    "readTree input clear = Some (Inr st1)" "root st1 = root (generateTree data clear)"
    "remaining input st1 = rest" by blast
  then show "\<exists>st1. readTree input clear = Some (Inr st1)
           \<and> root st1 = root (generateTree data clear)
           \<and> remaining input st1 = rest
           \<and> length (bufferBits input) - length (remaining input st1)
                = treeBits (snd (writeTree ([], generateTable (generateTree data clear))))"
    by (auto simp: b writeTree_fresh simp del: length_bufferBits)
next
  assume m: "length (encodedBits data) mod 8 \<noteq> 0"
  obtain payload st2 where e: "encode data = Inr (payload, st2)"
    "codecFields st2 =
         (eob (generateTable (generateTree data clear)), table (generateTable (generateTree data clear)),
          root (generateTree data clear), length (treeSerial (root (generateTree data clear))), 0)"
    "bufferBits payload = encodedBits data @ replicate (8 - length (encodedBits data) mod 8) 0"
    using encode_fields [of data] m by blast
  have b: "bufferBits payload = treeSerial (root (generateTree data clear)) @
      (concat (map (symbolBits (generateTable (generateTree data clear))) data)
        @ eobBits (generateTable (generateTree data clear))
        @ replicate (8 - length (encodedBits data) mod 8) 0)"
    by (simp add: e(3)) (simp add: encodedBits_def Let_def encode_start)
  from readTree_prefix [OF b] obtain st1 where
    r: "readTree payload clear = Some (Inr st1)" "root st1 = root (generateTree data clear)"
    "remaining payload st1 = concat (map (symbolBits (generateTable (generateTree data clear))) data)
        @ eobBits (generateTable (generateTree data clear))
        @ replicate (8 - length (encodedBits data) mod 8) 0" by blast
  have "length (bufferBits payload) - length (remaining payload st1) = treeBits st2"
    using e(2) by (simp only: b r(3)) (simp add: codecFields_def)
  moreover have "root st1 = root st2" using e(2) r(2) by (simp add: codecFields_def)
  ultimately show "\<exists>payload st2 st1. encode data = Inr (payload, st2)
           \<and> readTree payload clear = Some (Inr st1)
           \<and> root st1 = root st2
           \<and> length (bufferBits payload) - length (remaining payload st1) = treeBits st2"
    using e(1) r(1) by blast
qed

lemma empty_tree_bits:
  "bufferBits [0xC0, 0x00] = written (writeTree ([], generateTable (generateTree [] clear))) @ [0, 0, 0, 0, 0, 0]"
  by code_simp

lemma empty_tree_root: "root (generateTree [] clear) = Leaf 0 True"
  by code_simp

theorem tree_serialization_roundtrip_witness:
  "bufferBits [0xC0, 0x00] = written (writeTree ([], generateTable (generateTree [] clear))) @ [0, 0, 0, 0, 0, 0]
   \<and> length (encodedBits []) mod 8 \<noteq> 0
   \<and> (\<exists>st1. readTree [0xC0, 0x00] clear = Some (Inr st1) \<and> root st1 = Leaf 0 True
         \<and> remaining [0xC0, 0x00] st1 = [0, 0, 0, 0, 0, 0])
   \<and> (\<exists>payload st2 st1. encode [] = Inr (payload, st2) \<and> readTree payload clear = Some (Inr st1)
         \<and> root st1 = root st2
         \<and> length (bufferBits payload) - length (remaining payload st1) = treeBits st2)"
proof -
  have m: "length (encodedBits []) mod 8 \<noteq> 0" by (simp only: encodedBits_empty) simp
  from tree_serialization_roundtrip [of "[]" "[0xC0, 0x00]" "[0, 0, 0, 0, 0, 0]"] empty_tree_bits m
  show ?thesis by (simp only: empty_tree_root) blast
qed

section \<open>Round trip when the last byte is pushed\<close>

lemma codeBits_append: "codeBits (a @ b) = codeBits a @ codeBits b"
  by (simp add: codeBits_def)

lemma codeBits_digit: "codeBits ''0'' = [0]" "codeBits ''1'' = [1]"
  by (simp_all add: codeBits_def)

lemma walk_into_leaf:
  "descend n b = Leaf v e \<Longrightarrow> walk rt n out (b # bs) = afterSymbol rt out bs (if e then None else Some v)"
  by (simp add: afterSymbol_def)

lemma walk_code_inner:
  "(k, c) \<in> set (leafCodes (Internal l r) code) \<Longrightarrow>
     \<exists>suffix. c = code @ suffix \<and>
       walk rt (Internal l r) out (codeBits suffix @ bs) = afterSymbol rt out bs k"
proof (induction "Internal l r" arbitrary: l r code out)
  case (Internal l r)
  from Internal.prems consider (left) "(k, c) \<in> set (leafCodes l (code @ ''0''))"
    | (right) "(k, c) \<in> set (leafCodes r (code @ ''1''))" by auto
  then show ?case
  proof cases
    case left
    show ?thesis
    proof (cases l)
      case (Leaf v e)
      with left have kc: "k = (if e then None else Some v)" "c = code @ ''0''" by simp_all
      have "walk rt (Internal l r) out (codeBits ''0'' @ bs) = afterSymbol rt out bs k"
        using Leaf by (simp add: codeBits_digit kc(1) afterSymbol_def descend_def)
      with kc(2) show ?thesis by blast
    next
      case (Internal l1 r1)
      from Internal.hyps(1) [OF Internal left [unfolded Internal], of out]
      obtain suffix where s: "c = (code @ ''0'') @ suffix"
        "walk rt (Internal l1 r1) out (codeBits suffix @ bs) = afterSymbol rt out bs k" by blast
      have "walk rt (Internal l r) out (codeBits (''0'' @ suffix) @ bs) = afterSymbol rt out bs k"
        using s(2) Internal by (simp add: codeBits_def descend_def)
      with s(1) show ?thesis by (intro exI [of _ "''0'' @ suffix"]) simp
    qed
  next
    case right
    show ?thesis
    proof (cases r)
      case (Leaf v e)
      with right have kc: "k = (if e then None else Some v)" "c = code @ ''1''" by simp_all
      have "walk rt (Internal l r) out (codeBits ''1'' @ bs) = afterSymbol rt out bs k"
        using Leaf by (simp add: codeBits_digit kc(1) afterSymbol_def descend_def)
      with kc(2) show ?thesis by blast
    next
      case (Internal l1 r1)
      from Internal.hyps(2) [OF Internal right [unfolded Internal], of out]
      obtain suffix where s: "c = (code @ ''1'') @ suffix"
        "walk rt (Internal l1 r1) out (codeBits suffix @ bs) = afterSymbol rt out bs k" by blast
      have "walk rt (Internal l r) out (codeBits (''1'' @ suffix) @ bs) = afterSymbol rt out bs k"
        using s(2) Internal by (simp add: codeBits_def descend_def)
      with s(1) show ?thesis by (intro exI [of _ "''1'' @ suffix"]) simp
    qed
  qed
qed

lemma walk_code:
  assumes "(k, c) \<in> set (leafCodes t [])"
  shows "walk t t out (codeBits c @ bs) = afterSymbol t out bs k"
proof (cases t)
  case (Leaf v e)
  with assms have "k = (if e then None else Some v)" "c = ''0''" by simp_all
  then show ?thesis
    using Leaf walk_into_leaf [of t 0 v e t out bs] by (simp add: codeBits_digit descend_def)
next
  case (Internal l r)
  from walk_code_inner [OF assms [unfolded Internal], of t out bs] Internal
  show ?thesis by auto
qed

lemma table_entry_is_leaf_code:
  "table (generateTable (generateTree data clear)) b = Some c \<Longrightarrow>
     (Some b, c) \<in> set (leafCodes (root (generateTree data clear)) [])"
  and eob_is_leaf_code:
  "eob (generateTable (generateTree data clear)) = Some c \<Longrightarrow>
     (None, c) \<in> set (leafCodes (root (generateTree data clear)) [])"
  using encode_table_entries [of data] by (auto simp: tableEntries_def)

lemma walk_symbols:
  assumes "\<forall>b\<in>set ds. \<exists>c. table st b = Some c \<and> (Some b, c) \<in> set (leafCodes t [])"
  shows "walk t t out (concat (map (symbolBits st) ds) @ bs) = walk t t (out @ ds) bs"
  using assms
proof (induction ds arbitrary: out)
  case Nil
  then show ?case by simp
next
  case (Cons b ds)
  then obtain c where c: "table st b = Some c" "(Some b, c) \<in> set (leafCodes t [])" by auto
  have "walk t t out (codeBits c @ (concat (map (symbolBits st) ds) @ bs)) = walk t t (out @ [b]) (concat (map (symbolBits st) ds) @ bs)"
    using walk_code [OF c(2)] by (simp add: afterSymbol_def)
  also have "\<dots> = walk t t ((out @ [b]) @ ds) bs"
    using Cons.prems by (intro Cons.IH) simp
  finally have w: "walk t t out (codeBits c @ (concat (map (symbolBits st) ds) @ bs)) = walk t t ((out @ [b]) @ ds) bs" .
  have "symbolBits st b = codeBits c" by (simp add: symbolBits_def c(1))
  with w show ?case by simp
qed

lemma walk_encoded:
  "walk (root (generateTree data clear)) (root (generateTree data clear)) []
     (concat (map (symbolBits (generateTable (generateTree data clear))) data)
        @ eobBits (generateTable (generateTree data clear)) @ pad)
   = (data, pad, True)"
proof -
  let ?st = "generateTable (generateTree data clear)" and ?t = "root (generateTree data clear)"
  have "\<forall>b\<in>set data. \<exists>c. table ?st b = Some c \<and> (Some b, c) \<in> set (leafCodes ?t [])"
    using table_covers_data [of _ data] table_entry_is_leaf_code [of data] by fastforce
  then have "walk ?t ?t [] (concat (map (symbolBits ?st) data) @ (eobBits ?st @ pad))
      = walk ?t ?t ([] @ data) (eobBits ?st @ pad)"
    by (rule walk_symbols)
  moreover obtain c where c: "eob ?st = Some c" using eob_is_set [of data] by auto
  moreover have "walk ?t ?t data (codeBits c @ pad) = (data, pad, True)"
    using walk_code [OF eob_is_leaf_code [OF c]] by (simp add: afterSymbol_def)
  ultimately show ?thesis by (simp add: eobBits_def)
qed

text \<open>
  When the number of bits written is not a multiple of 8, \<^verbatim>\<open>writeFinish\<close> pushes the last
  byte, and decoding the payload gives the input back; the decoder stops at the
  End-Of-Block leaf and leaves the padding bits unread.
\<close>

lemma roundtrip_unless_last_byte_dropped:
  assumes "length (encodedBits data) mod 8 \<noteq> 0"
  shows "\<exists>payload st1 st2. encode data = Inr (payload, st1)
           \<and> decode payload = Some (Inr (data, st2))
           \<and> remaining payload st2 = replicate (8 - length (encodedBits data) mod 8) 0"
proof -
  let ?st = "generateTable (generateTree data clear)" and ?t = "root (generateTree data clear)"
  let ?pad = "replicate (8 - length (encodedBits data) mod 8) (0::nat)"
  obtain payload st1 where e: "encode data = Inr (payload, st1)"
    "bufferBits payload = encodedBits data @ ?pad"
    using encode_fields [of data] assms by blast
  have b: "bufferBits payload = treeSerial ?t @ (concat (map (symbolBits ?st) data) @ eobBits ?st @ ?pad)"
    by (simp add: e(2)) (simp add: encodedBits_def Let_def encode_start)
  from decode_prefix [OF b] obtain st2 where
    "decode payload = Some (Inr (data, st2))" "remaining payload st2 = ?pad"
    by (auto simp only: walk_encoded fst_conv snd_conv)
  with e(1) show ?thesis by blast
qed

section \<open>The empty buffer, and two buffers whose last byte is lost\<close>

lemma encode_empty_eval:
  "map_sum id (\<lambda>(p, st). (p, treeBits st, eob st, root st)) (encode [])
     = Inr ([0xC0, 0x00], 10, Some ''0'', Leaf 0 True)"
  by code_simp

lemma empty_payload_bits:
  "bufferBits [0xC0, 0x00] = treeSerial (Leaf 0 True) @ codeBits ''0'' @ replicate 5 0"
  "treeSerial (Leaf 0 True) = [1, 1, 0, 0, 0, 0, 0, 0, 0, 0]"
  "walk (Leaf 0 True) (Leaf 0 True) [] (codeBits ''0'' @ replicate 5 0) = ([], replicate 5 0, True)"
  by code_simp+

text \<open>
  C6. Encoding the empty buffer gives the two bytes 0xC0 0x00: a tree section of 10 bits
  (leaf marker 1, End-Of-Block flag 1, the value 00000000), the data section "0" (the
  End-Of-Block code) and 5 zero padding bits. Decoding these two bytes gives the empty
  buffer, and leaves the 5 padding bits unread.
\<close>

theorem encode_empty_buffer:
  "\<exists>st st2. encode [] = Inr ([0xC0, 0x00], st)
     \<and> treeBits st = 10 \<and> eob st = Some ''0''
     \<and> treeSerial (root st) = [1, 1, 0, 0, 0, 0, 0, 0, 0, 0]
     \<and> bufferBits [0xC0, 0x00] = treeSerial (root st) @ codeBits ''0'' @ replicate 5 0
     \<and> decode [0xC0, 0x00] = Some (Inr ([], st2))
     \<and> remaining [0xC0, 0x00] st2 = replicate 5 0"
proof -
  obtain p st where e: "encode [] = Inr (p, st)"
    using encode_empty_eval by (cases "encode []") auto
  with encode_empty_eval have f: "p = [0xC0, 0x00]" "treeBits st = 10" "eob st = Some ''0''"
    "root st = Leaf 0 True" by simp_all
  from decode_prefix [OF empty_payload_bits(1)] obtain st2 where
    d: "decode [0xC0, 0x00] = Some (Inr ([], st2))" "remaining [0xC0, 0x00] st2 = replicate 5 0"
    by (auto simp only: empty_payload_bits(3) fst_conv snd_conv)
  show ?thesis
    using e f d empty_payload_bits(1,2) by (intro exI [of _ st] exI [of _ st2]) simp
qed

lemma wrapped_bits:
  "takeBits [0x48, 0x38] (length (treeSerial (Internal (Leaf 65 False) (Leaf 0 True)))) (bufferBits [0x48, 0x38])
     = (treeSerial (Internal (Leaf 65 False) (Leaf 0 True)), [0, 0, 0] @ bufferBits [0x48, 0x38])"
  "walk (Internal (Leaf 65 False) (Leaf 0 True)) (Internal (Leaf 65 False) (Leaf 0 True)) []
        ([0, 0, 0] @ bufferBits [0x48, 0x38])
     = ([65, 65, 65, 65], drop 2 (bufferBits [0x48, 0x38]), True)"
  by code_simp+

text \<open>
  C1. The claim: decoding the payload of \<^verbatim>\<open>encode\<close> gives the input back. On the buffer
  65, 65 the encoder writes 24 bits, and \<^verbatim>\<open>writeFinish\<close> does not push the third byte,
  which is complete but still held in \<^verbatim>\<open>this.bits\<close>. Decoding the two bytes that are left
  gives 65, 65, 65, 65.
\<close>

theorem decode_encode_65_65:
  "\<exists>payload st1 st2. encode [65, 65] = Inr (payload, st1)
     \<and> decode payload = Some (Inr ([65, 65, 65, 65], st2))"
proof -
  obtain p st where e: "encode [65, 65] = Inr (p, st)"
    using encode_65_65 by (cases "encode [65, 65]") auto
  with encode_65_65 have f: "p = [0x48, 0x38]" by simp
  from decode_stream [OF wrapped_bits(1)] obtain st2 where
    "decode [0x48, 0x38] = Some (Inr ([65, 65, 65, 65], st2))"
    by (auto simp only: wrapped_bits(2) fst_conv snd_conv)
  with e f show ?thesis by blast
qed

lemma encode_121:
  "map_sum id (\<lambda>(p, st). (p, root st)) (encode [1, 2, 3, 1, 2, 1])
     = Inr ([32, 36, 7, 128, 64, 49],
            Internal (Internal (Leaf 2 False) (Internal (Leaf 3 False) (Leaf 0 True))) (Leaf 1 False))"
  by code_simp

lemma bits_121:
  "bufferBits [32, 36, 7, 128, 64, 49] =
     treeSerial (Internal (Internal (Leaf 2 False) (Internal (Leaf 3 False) (Leaf 0 True))) (Leaf 1 False))
       @ [1, 0, 0, 0, 1]"
  "walk (Internal (Internal (Leaf 2 False) (Internal (Leaf 3 False) (Leaf 0 True))) (Leaf 1 False))
        (Internal (Internal (Leaf 2 False) (Internal (Leaf 3 False) (Leaf 0 True))) (Leaf 1 False))
        [] [1, 0, 0, 0, 1] = ([1, 2], [], False)"
  "length (encodedBits [1, 2, 3, 1, 2, 1]) = 56"
  by code_simp+

text \<open>
  C9. The claim: on a payload of \<^verbatim>\<open>encode\<close>, \<^verbatim>\<open>decode\<close> stops on reaching the End-Of-Block
  leaf. On the buffer 1, 2, 3, 1, 2, 1 the encoder writes 56 bits and the payload holds
  48 of them: the byte with the End-Of-Block code is not pushed. The walk over the bits
  after the tree ends because the bits run out, not at an End-Of-Block leaf, and
  \<^verbatim>\<open>decode\<close> returns 1, 2.
\<close>

theorem decode_ends_without_eob:
  "\<exists>payload st1 st2 rest. encode [1, 2, 3, 1, 2, 1] = Inr (payload, st1)
     \<and> length (encodedBits [1, 2, 3, 1, 2, 1]) = 56 \<and> length (bufferBits payload) = 48
     \<and> bufferBits payload = treeSerial (root st1) @ rest
     \<and> walk (root st1) (root st1) [] rest = ([1, 2], [], False)
     \<and> decode payload = Some (Inr ([1, 2], st2))
     \<and> \<not> readBitAvailable payload st2"
proof -
  obtain p st where e: "encode [1, 2, 3, 1, 2, 1] = Inr (p, st)"
    using encode_121 by (cases "encode [1, 2, 3, 1, 2, 1]") auto
  with encode_121 have f: "p = [32, 36, 7, 128, 64, 49]"
    "root st = Internal (Internal (Leaf 2 False) (Internal (Leaf 3 False) (Leaf 0 True))) (Leaf 1 False)"
    by simp_all
  from decode_prefix [OF bits_121(1)] obtain st2 where
    d: "decode [32, 36, 7, 128, 64, 49] = Some (Inr ([1, 2], st2))"
    "remaining [32, 36, 7, 128, 64, 49] st2 = []" "wfReader [32, 36, 7, 128, 64, 49] st2"
    by (auto simp only: bits_121(2) fst_conv snd_conv)
  have "\<not> readBitAvailable [32, 36, 7, 128, 64, 49] st2"
    using d by (simp add: readBitAvailable_remaining)
  with e f d bits_121 show ?thesis
    by (intro exI [of _ p] exI [of _ st] exI [of _ st2] exI [of _ "[1, 0, 0, 0, 1]"]) simp
qed

end
